theory Spec2Isabelle
  imports Main "HOL-Library.Word"
begin

unbundle bit_operations_syntax

section \<open>Python primitives used by both decoders\<close>

text \<open>
  A file is a list of bytes. Python integers are unbounded, so every value read from the
  buffer becomes a \<open>nat\<close> (or an \<open>int\<close> where the code can produce a negative number).
  Every exception of the source is a value of \<open>error\<close>; a function that can raise returns
  \<open>error + 'a\<close>.
\<close>

type_synonym byte = "8 word"

datatype error =
    BadMagic        \<comment> \<open>\<open>ValueError('... not a TIM2 file')\<close>\<close>
  | StructError     \<comment> \<open>\<open>struct.error\<close>: the buffer given to \<open>struct.unpack\<close> has the wrong size\<close>
  | IndexError      \<comment> \<open>index out of range\<close>
  | MaxEmpty        \<comment> \<open>\<open>ValueError\<close>: \<open>max()\<close> of an empty sequence\<close>
  | TooManyData     \<comment> \<open>\<open>putdata\<close> was given more entries than the image has pixels\<close>
  | SaveEmptyImage  \<comment> \<open>\<open>save\<close> was given an image without pixels\<close>

definition bnd :: "error + 'a \<Rightarrow> ('a \<Rightarrow> error + 'b) \<Rightarrow> error + 'b" where
  "bnd m f = (case m of Inl e \<Rightarrow> Inl e | Inr v \<Rightarrow> f v)"

text \<open>\<open>xs[a:b]\<close> for \<open>0 \<le> a \<le> b\<close>: a slice never raises, it is cut at the end of the list.\<close>

definition slice :: "'a list \<Rightarrow> nat \<Rightarrow> nat \<Rightarrow> 'a list" where
  "slice xs a b = take (b - a) (drop a xs)"

text \<open>\<open>xs[i]\<close> for \<open>i \<ge> 0\<close>: raises \<open>IndexError\<close> past the end.\<close>

definition getitem :: "'a list \<Rightarrow> nat \<Rightarrow> error + 'a" where
  "getitem xs i = (if i < length xs then Inr (xs ! i) else Inl IndexError)"

text \<open>\<open>struct.unpack('<H', bs)[0]\<close> and \<open>struct.unpack('<I', bs)[0]\<close>.\<close>

definition unpack_H :: "byte list \<Rightarrow> error + nat" where
  "unpack_H bs =
     (if length bs = 2 then Inr (unat (bs ! 0) + 256 * unat (bs ! 1)) else Inl StructError)"

definition unpack_I :: "byte list \<Rightarrow> error + nat" where
  "unpack_I bs =
     (if length bs = 4
      then Inr (unat (bs ! 0) + 256 * unat (bs ! 1) + 65536 * unat (bs ! 2)
                + 16777216 * unat (bs ! 3))
      else Inl StructError)"

text \<open>\<open>max(xs)\<close> of a sequence of numbers.\<close>

fun py_max :: "nat list \<Rightarrow> error + nat" where
  "py_max [] = Inl MaxEmpty"
| "py_max (v # vs) = Inr (fold max vs v)"

section \<open>Images of the chained decoder (\<open>tim2_eva.py\<close>)\<close>

text \<open>
  A decoded picture is what the code builds from the \<open>(hgt, w, 4)\<close> array of unsigned bytes:
  its size and its pixels in row-major order.
\<close>

type_synonym rgba = "byte \<times> byte \<times> byte \<times> byte"

record image =
  im_width :: nat
  im_height :: nat
  im_pixels :: "rgba list"

text \<open>\<open>Image.new('RGBA', (w, h), (0, 0, 0, 0))\<close>\<close>

definition new_image :: "nat \<Rightarrow> nat \<Rightarrow> image" where
  "new_image w h = \<lparr>im_width = w, im_height = h, im_pixels = replicate (w * h) (0, 0, 0, 0)\<rparr>"

text \<open>
  \<open>im.save(path)\<close>: the library writes the image as it is, and raises for an image that
  has no pixels (width or height 0), in which case no file is written.
\<close>

definition save_image :: "image \<Rightarrow> error + image" where
  "save_image im = (if im_width im * im_height im = 0 then Inl SaveEmptyImage else Inr im)"

text \<open>
  \<open>canvas.paste(im, (px, py))\<close>: the pixels of \<open>im\<close> replace those of the canvas in the
  rectangle that starts at \<open>(px, py)\<close>, cut at the border of the canvas.
\<close>

definition paste :: "image \<Rightarrow> nat \<times> nat \<Rightarrow> image \<Rightarrow> image" where
  "paste im pos canvas =
     (case pos of (px, py) \<Rightarrow>
        canvas\<lparr>im_pixels :=
          map (\<lambda>k. let cx = k mod im_width canvas; cy = k div im_width canvas
                    in if px \<le> cx \<and> cx < px + im_width im \<and> py \<le> cy \<and> cy < py + im_height im
                       then im_pixels im ! ((cy - py) * im_width im + (cx - px))
                       else im_pixels canvas ! k)
              [0 ..< length (im_pixels canvas)]\<rparr>)"

section \<open>The column compositor\<close>

text \<open>\<open>[im.height for im in images if im is not None]\<close>\<close>

fun present :: "'a option list \<Rightarrow> 'a list" where
  "present [] = []"
| "present (None # ims) = present ims"
| "present (Some im # ims) = im # present ims"

text \<open>The loop that collects the running sums \<open>s\<close> into \<open>prefix\<close>.\<close>

fun prefix_loop :: "nat list \<Rightarrow> nat \<Rightarrow> nat list \<Rightarrow> nat list" where
  "prefix_loop [] s prefix = prefix"
| "prefix_loop (h # hs) s prefix = prefix_loop hs (s + h) (prefix @ [s + h])"

text \<open>The loop over \<open>typical + prefix\<close> that keeps the positive values not yet seen.\<close>

fun cand_loop :: "nat list \<Rightarrow> nat set \<Rightarrow> nat list \<Rightarrow> nat list" where
  "cand_loop [] seen cand = cand"
| "cand_loop (v # vs) seen cand =
     (if v > 0 \<and> v \<notin> seen then cand_loop vs (insert v seen) (cand @ [v])
      else cand_loop vs seen cand)"

fun can_partition_loop :: "nat \<Rightarrow> nat list \<Rightarrow> nat \<Rightarrow> bool" where
  "can_partition_loop H [] acc = (acc = 0)"
| "can_partition_loop H (h # hs) acc =
     (if acc + h = H then can_partition_loop H hs 0
      else if acc + h > H then False
      else can_partition_loop H hs (acc + h))"

definition can_partition :: "nat list \<Rightarrow> nat \<Rightarrow> bool" where
  "can_partition heights H = can_partition_loop H heights 0"

text \<open>\<open>for H in cand: if can_partition(H): return H\<close>\<close>

fun first_partition :: "nat list \<Rightarrow> nat list \<Rightarrow> nat option" where
  "first_partition heights [] = None"
| "first_partition heights (H # cand) =
     (if can_partition heights H then Some H else first_partition heights cand)"

definition typical :: "nat list" where
  "typical = [448, 480, 512, 384, 320, 256]"

definition candidates :: "nat list \<Rightarrow> nat list" where
  "candidates heights =
     cand_loop (typical @ prefix_loop (slice heights 0 (min 6 (length heights))) 0 []) {} []"

definition infer_column_height :: "image option list \<Rightarrow> nat" where
  "infer_column_height images =
     (let heights = map im_height (present images)
      in if heights = [] then 0
         else case first_partition heights (candidates heights) of
                Some H \<Rightarrow> H
              | None \<Rightarrow> sum_list heights)"

text \<open>
  The first pass of \<open>compose_columns\<close>: the loop over the images with its five variables
  \<open>positions\<close>, \<open>col_widths\<close>, \<open>x\<close>, \<open>col_y\<close>, \<open>col_w\<close>.
\<close>

fun place_loop ::
  "nat \<Rightarrow> image option list \<Rightarrow> (nat \<times> nat) list \<Rightarrow> nat list \<Rightarrow> nat \<Rightarrow> nat \<Rightarrow> nat
   \<Rightarrow> (nat \<times> nat) list \<times> nat list \<times> nat \<times> nat \<times> nat" where
  "place_loop H [] positions col_widths x col_y col_w = (positions, col_widths, x, col_y, col_w)"
| "place_loop H (None # ims) positions col_widths x col_y col_w =
     place_loop H ims positions col_widths x col_y col_w"
| "place_loop H (Some im # ims) positions col_widths x col_y col_w =
     (let (col_widths1, x1, col_y1, col_w1) =
            (if col_y > 0 \<and> col_y + im_height im > H
             then (col_widths @ [col_w], x + col_w, 0, 0)
             else (col_widths, x, col_y, col_w));
          positions2 = positions @ [(x1, col_y1)];
          col_y2 = col_y1 + im_height im;
          col_w2 = max col_w1 (im_width im)
      in if col_y2 = H
         then place_loop H ims positions2 (col_widths1 @ [col_w2]) (x1 + col_w2) 0 0
         else place_loop H ims positions2 col_widths1 x1 col_y2 col_w2)"

text \<open>
  Steps 1 and 2 of \<open>compose_columns\<close>, up to the closing of the last column: the column
  height, the positions and the column widths.
\<close>

definition column_layout :: "nat \<Rightarrow> image option list \<Rightarrow> nat \<times> (nat \<times> nat) list \<times> nat list" where
  "column_layout total_height images =
     (let col_target_h = (if total_height > 0 then total_height
                          else infer_column_height images)
      in case place_loop col_target_h images [] [] 0 0 0 of
           (positions, col_widths, x, col_y, col_w) \<Rightarrow>
             (col_target_h, positions,
              if col_y > 0 \<or> (col_w > 0 \<and> col_widths = []) then col_widths @ [col_w]
              else col_widths))"

text \<open>
  \<open>for im, (px, py) in zip(images, positions): if im is None: continue; paste\<close>. The
  positions hold one entry per decoded picture, the images one per slot, and \<open>zip\<close> pairs
  them by index, as the code does.
\<close>

fun paste_loop :: "(image option \<times> (nat \<times> nat)) list \<Rightarrow> image \<Rightarrow> image" where
  "paste_loop [] canvas = canvas"
| "paste_loop ((None, pos) # rest) canvas = paste_loop rest canvas"
| "paste_loop ((Some im, pos) # rest) canvas = paste_loop rest (paste im pos canvas)"

text \<open>
  \<open>compose_columns\<close> with the declared sizes of the parser as arguments. The two warnings
  it may print at the end do not change the canvas and are left out.
\<close>

definition compose_columns :: "nat \<Rightarrow> nat \<Rightarrow> image option list \<Rightarrow> error + image" where
  "compose_columns total_width total_height images =
     (case column_layout total_height images of
        (col_target_h, positions, col_widths) \<Rightarrow>
          let computed_w = (if col_widths \<noteq> [] then sum_list col_widths else 0)
          in bnd (if total_width > 0 \<and> total_height > 0 then Inr (total_width, total_height)
                  else bnd (if computed_w > 0 then Inr computed_w
                            else py_max (map im_width (present images)))
                         (\<lambda>canvas_w. Inr (canvas_w, col_target_h)))
               (\<lambda>(canvas_w, canvas_h).
                  Inr (paste_loop (zip images positions) (new_image canvas_w canvas_h))))"

section \<open>The chained container parser (\<open>TIM2Parser\<close>)\<close>

text \<open>
  \<open>bytes.decode('ascii', errors='ignore')\<close>: bytes that are not ASCII (0x80 and above) are
  dropped, the others become the characters with their codes.
\<close>

definition decode_ascii_ignore :: "byte list \<Rightarrow> string" where
  "decode_ascii_ignore bs = map (\<lambda>b. char_of (unat b)) (filter (\<lambda>b. b < 0x80) bs)"

text \<open>\<open>_parse_header\<close>: the magic tag, then version, picture count and declared canvas size.\<close>

definition parse_header :: "byte list \<Rightarrow> error + (nat \<times> nat \<times> nat \<times> nat)" where
  "parse_header data =
     (let magic = decode_ascii_ignore (slice data 0 4)
      in if magic \<noteq> ''TIM2'' then Inl BadMagic
         else bnd (unpack_H (slice data 0x04 0x06)) (\<lambda>version.
              bnd (unpack_H (slice data 0x06 0x08)) (\<lambda>picture_count.
              bnd (unpack_H (slice data 0x08 0x0A)) (\<lambda>total_width.
              bnd (unpack_H (slice data 0x0A 0x0C)) (\<lambda>total_height.
              Inr (version, picture_count, total_width, total_height))))))"

text \<open>The dictionary \<open>h\<close> built by \<open>_parse_picture_header_at\<close>; field \<open>h_k\<close> is \<open>h['k']\<close>.\<close>

record picture_header =
  h_total_size :: nat
  h_palette_size :: nat
  h_image_size_b :: nat
  h_header_size :: nat
  h_color_count :: nat
  h_format :: byte
  h_mipmap_count :: byte
  h_clut_format :: byte
  h_bpp :: byte
  h_width :: nat
  h_height :: nat
  h_image_offset :: nat
  h_palette_offset :: nat

definition parse_picture_header_at :: "byte list \<Rightarrow> nat \<Rightarrow> error + picture_header" where
  "parse_picture_header_at data offset =
     bnd (unpack_I (slice data (offset + 0x00) (offset + 0x04))) (\<lambda>total_size.
     bnd (unpack_I (slice data (offset + 0x04) (offset + 0x08))) (\<lambda>palette_size.
     bnd (unpack_I (slice data (offset + 0x08) (offset + 0x0C))) (\<lambda>image_size_b.
     bnd (unpack_H (slice data (offset + 0x0C) (offset + 0x0E))) (\<lambda>stored_header_size.
     let header_size = (if stored_header_size = 0 then 0x80 else stored_header_size) in
     bnd (unpack_H (slice data (offset + 0x0E) (offset + 0x10))) (\<lambda>color_count.
     bnd (getitem data (offset + 0x10)) (\<lambda>format.
     bnd (getitem data (offset + 0x11)) (\<lambda>mipmap_count.
     bnd (getitem data (offset + 0x12)) (\<lambda>clut_format.
     bnd (getitem data (offset + 0x13)) (\<lambda>bpp.
     bnd (unpack_H (slice data (offset + 0x14) (offset + 0x16))) (\<lambda>width.
     bnd (unpack_H (slice data (offset + 0x16) (offset + 0x18))) (\<lambda>height.
     let image_offset = offset + header_size;
         palette_offset = image_offset + image_size_b
     in Inr \<lparr>h_total_size = total_size, h_palette_size = palette_size,
              h_image_size_b = image_size_b, h_header_size = header_size,
              h_color_count = color_count, h_format = format,
              h_mipmap_count = mipmap_count, h_clut_format = clut_format, h_bpp = bpp,
              h_width = width, h_height = height,
              h_image_offset = image_offset, h_palette_offset = palette_offset\<rparr>)))))))))))"

text \<open>
  \<open>_find_picture_headers\<close>: the loop \<open>for _ in range(picture_count)\<close>; the first argument
  counts the iterations that are left, \<open>offset\<close> and \<open>picture_headers\<close> are the loop's
  variables.
\<close>

fun find_loop ::
  "byte list \<Rightarrow> nat \<Rightarrow> nat \<Rightarrow> (nat \<times> picture_header) list
   \<Rightarrow> error + (nat \<times> picture_header) list" where
  "find_loop data 0 offset picture_headers = Inr picture_headers"
| "find_loop data (Suc n) offset picture_headers =
     (if offset + 0x28 > length data then Inr picture_headers
      else bnd (parse_picture_header_at data offset) (\<lambda>header.
             find_loop data n (offset + h_total_size header)
               (picture_headers @ [(offset, header)])))"

definition find_picture_headers :: "byte list \<Rightarrow> nat \<Rightarrow> error + (nat \<times> picture_header) list" where
  "find_picture_headers data picture_count = find_loop data picture_count 0x80 []"

text \<open>The parser object after \<open>__init__\<close>; field \<open>self_k\<close> is \<open>self.k\<close>.\<close>

record tim2_parser =
  self_data :: "byte list"
  self_version :: nat
  self_picture_count :: nat
  self_total_width :: nat
  self_total_height :: nat
  self_picture_headers :: "(nat \<times> picture_header) list"

definition TIM2Parser :: "byte list \<Rightarrow> error + tim2_parser" where
  "TIM2Parser data =
     bnd (parse_header data) (\<lambda>(version, picture_count, total_width, total_height).
     bnd (find_picture_headers data picture_count) (\<lambda>picture_headers.
     Inr \<lparr>self_data = data, self_version = version, self_picture_count = picture_count,
          self_total_width = total_width, self_total_height = total_height,
          self_picture_headers = picture_headers\<rparr>))"

subsection \<open>Extracting the pictures\<close>

text \<open>
  The alpha adjustment of \<open>extract_image\<close>: the byte is widened to a 32-bit integer (no
  overflow can happen below 512), \<open>np.minimum(a * 2 - 1, 255)\<close>, then
  \<open>np.clip(a, 0, 255)\<close>, then narrowed to a byte again.
\<close>

definition alpha_eva :: "byte \<Rightarrow> byte" where
  "alpha_eva a =
     (let a1 = uint a;
          a2 = min (a1 * 2 - 1) 255;
          a3 = min (max a2 0) 255
      in word_of_int a3)"

text \<open>
  The buffer seen as an array of shape \<open>(hgt, w, 4)\<close>, channel 3 replaced by its adjusted
  value: the pixels in row-major order.
\<close>

fun arr_pixels :: "byte list \<Rightarrow> rgba list" where
  "arr_pixels (r # g # b # a # rest) = (r, g, b, alpha_eva a) # arr_pixels rest"
| "arr_pixels _ = []"

text \<open>The lines printed by \<open>extract_image\<close>.\<close>

datatype diagnostic =
    UnsupportedFormat nat byte   \<comment> \<open>\<open>Skip picture i: unsupported format 0x..\<close>\<close>
  | DataOverflow nat             \<comment> \<open>\<open>Data overflow for picture i\<close>\<close>

text \<open>
  \<open>extract_image\<close> returns the picture, or \<open>None\<close>, and what it printed. The calls into
  numpy and PIL on a buffer of exactly \<open>w * hgt * 4\<close> bytes are taken to succeed.
\<close>

definition extract_image ::
  "byte list \<Rightarrow> (nat \<times> picture_header) list \<Rightarrow> nat \<Rightarrow> image option \<times> diagnostic list" where
  "extract_image data picture_headers index =
     (if index \<ge> length picture_headers then (None, [])
      else let h = snd (picture_headers ! index);
               fmt = h_format h;
               w = h_width h;
               hgt = h_height h;
               data_off = h_image_offset h
           in if fmt \<notin> {0x00, 0x03} then (None, [UnsupportedFormat index fmt])
              else let pixel_bytes = w * hgt * 4
                   in if data_off + pixel_bytes > length data then (None, [DataOverflow index])
                      else let buf = slice data data_off (data_off + pixel_bytes)
                           in (Some \<lparr>im_width = w, im_height = hgt,
                                     im_pixels = arr_pixels buf\<rparr>, []))"

text \<open>\<open>extract_all_images\<close>: the loop over \<open>range(len(self.picture_headers))\<close>.\<close>

fun extract_loop ::
  "byte list \<Rightarrow> (nat \<times> picture_header) list \<Rightarrow> nat list \<Rightarrow> image option list \<Rightarrow> diagnostic list
   \<Rightarrow> image option list \<times> diagnostic list" where
  "extract_loop data picture_headers [] imgs printed = (imgs, printed)"
| "extract_loop data picture_headers (i # is) imgs printed =
     (case extract_image data picture_headers i of
        (img, out) \<Rightarrow> extract_loop data picture_headers is (imgs @ [img]) (printed @ out))"

definition extract_all_images ::
  "byte list \<Rightarrow> (nat \<times> picture_header) list \<Rightarrow> image option list \<times> diagnostic list" where
  "extract_all_images data picture_headers =
     extract_loop data picture_headers [0 ..< length picture_headers] [] []"

text \<open>
  The loop that saves the parts: \<open>for idx, im in enumerate(imgs): if im is not None:
  im.save(...)\<close>.
\<close>

fun save_parts_loop :: "image option list \<Rightarrow> error + unit" where
  "save_parts_loop [] = Inr ()"
| "save_parts_loop (None # imgs) = save_parts_loop imgs"
| "save_parts_loop (Some im # imgs) = bnd (save_image im) (\<lambda>saved. save_parts_loop imgs)"

text \<open>
  \<open>process_tex_file\<close> on the bytes of the file and the flag \<open>save_parts\<close>: any exception
  of the parser, of saving a part, of the compositor or of saving the composed canvas is
  caught and the file is reported with \<open>[ERR]\<close>; otherwise the canvas has been saved and
  the file is reported with \<open>[OK]\<close>.
\<close>

datatype tex_outcome = OK image "diagnostic list" | ERR error

definition process_tex_file :: "byte list \<Rightarrow> bool \<Rightarrow> tex_outcome" where
  "process_tex_file data save_parts =
     (case TIM2Parser data of
        Inl e \<Rightarrow> ERR e
      | Inr parser \<Rightarrow>
          (case extract_all_images (self_data parser) (self_picture_headers parser) of
             (imgs, printed) \<Rightarrow>
               (case bnd (if save_parts then save_parts_loop imgs else Inr ()) (\<lambda>parts_saved.
                     bnd (compose_columns (self_total_width parser) (self_total_height parser)
                            imgs) (\<lambda>combined.
                     save_image combined)) of
                  Inl e \<Rightarrow> ERR e
                | Inr combined \<Rightarrow> OK combined printed)))"

section \<open>The legacy single-picture decoder (\<open>tim2.py\<close>)\<close>

text \<open>
  The legacy decoder builds Python tuples of integers; its alpha value is
  \<open>min(a * 2 - 1, 255)\<close> on an unbounded integer.
\<close>

type_synonym pixel = "int \<times> int \<times> int \<times> int"

definition alpha_legacy :: "byte \<Rightarrow> int" where
  "alpha_legacy a = min (uint a * 2 - 1) 255"

text \<open>
  The palette loop \<open>for i in range(cont)\<close>; the first argument counts the iterations
  that are left.
\<close>

fun palette_loop :: "byte list \<Rightarrow> nat \<Rightarrow> nat \<Rightarrow> pixel list \<Rightarrow> error + pixel list" where
  "palette_loop palette_data 0 i original_palette = Inr original_palette"
| "palette_loop palette_data (Suc n) i original_palette =
     (let pos = i * 4 in
      bnd (getitem palette_data pos) (\<lambda>r.
      bnd (getitem palette_data (pos + 1)) (\<lambda>g.
      bnd (getitem palette_data (pos + 2)) (\<lambda>b.
      bnd (getitem palette_data (pos + 3)) (\<lambda>a.
      palette_loop palette_data n (i + 1)
        (original_palette @ [(uint r, uint g, uint b, alpha_legacy a)]))))))"

text \<open>The reorder loop \<open>for major_group_start in range(0, 256, 32)\<close>.\<close>

fun reorder_loop :: "'a list \<Rightarrow> nat list \<Rightarrow> 'a list \<Rightarrow> 'a list" where
  "reorder_loop original_palette [] palette = palette"
| "reorder_loop original_palette (major_group_start # starts) palette =
     (let major_group = slice original_palette major_group_start (major_group_start + 32);
          subgroup1 = slice major_group 0 8;
          subgroup2 = slice major_group 8 16;
          subgroup3 = slice major_group 16 24;
          subgroup4 = slice major_group 24 32;
          reordered_major_group = subgroup1 @ subgroup3 @ subgroup2 @ subgroup4
      in reorder_loop original_palette starts (palette @ reordered_major_group))"

text \<open>The palette that the pixel decode uses: reordered for 256 entries, as read otherwise.\<close>

definition resolve_palette :: "nat \<Rightarrow> 'a list \<Rightarrow> 'a list" where
  "resolve_palette cont original_palette =
     (if cont = 256 then reorder_loop original_palette [0, 32, 64, 96, 128, 160, 192, 224] []
      else original_palette)"

text \<open>
  The three pixel loops. \<open>stop\<close> is the index at which the loop breaks, the argument
  after it counts the iterations of \<open>range(pixel_data_size)\<close> that are left.
\<close>

fun loop256 ::
  "byte list \<Rightarrow> 'a list \<Rightarrow> nat \<Rightarrow> nat \<Rightarrow> nat \<Rightarrow> 'a list \<Rightarrow> error + 'a list" where
  "loop256 pixels palette stop 0 i img_data = Inr img_data"
| "loop256 pixels palette stop (Suc n) i img_data =
     (if i = stop then Inr img_data
      else bnd (getitem pixels i) (\<lambda>color_idx.
           bnd (getitem palette (unat color_idx)) (\<lambda>c.
           loop256 pixels palette stop n (i + 1) (img_data @ [c]))))"

fun loop16 ::
  "byte list \<Rightarrow> 'a list \<Rightarrow> nat \<Rightarrow> nat \<Rightarrow> nat \<Rightarrow> 'a list \<Rightarrow> error + 'a list" where
  "loop16 pixels palette stop 0 i img_data = Inr img_data"
| "loop16 pixels palette stop (Suc n) i img_data =
     (if i = stop then Inr img_data
      else bnd (getitem pixels i) (\<lambda>byte_value.
           bnd (getitem palette (unat (byte_value AND 0xF))) (\<lambda>c1.
           bnd (getitem palette (unat (drop_bit 4 byte_value AND 0xF))) (\<lambda>c2.
           loop16 pixels palette stop n (i + 1) (img_data @ [c1] @ [c2])))))"

text \<open>\<open>for i in range(0, pixel_data_size, 4)\<close>: the index advances by 4.\<close>

fun loop32 :: "byte list \<Rightarrow> nat \<Rightarrow> nat \<Rightarrow> pixel list \<Rightarrow> error + pixel list" where
  "loop32 pixels 0 i img_data = Inr img_data"
| "loop32 pixels (Suc n) i img_data =
     bnd (getitem pixels i) (\<lambda>r.
     bnd (getitem pixels (i + 1)) (\<lambda>g.
     bnd (getitem pixels (i + 2)) (\<lambda>b.
     bnd (getitem pixels (i + 3)) (\<lambda>a.
     loop32 pixels n (i + 4) (img_data @ [(uint r, uint g, uint b, alpha_legacy a)])))))"

text \<open>The \<open>if cont == 256 / elif cont == 16 / elif cont == 0\<close> chain that fills \<open>img_data\<close>.\<close>

definition decode_pixels ::
  "nat \<Rightarrow> nat \<Rightarrow> nat \<Rightarrow> nat \<Rightarrow> byte list \<Rightarrow> pixel list \<Rightarrow> error + pixel list" where
  "decode_pixels cont pixel_data_size width height pixels palette =
     (if cont = 256 then loop256 pixels palette (width * height) pixel_data_size 0 []
      else if cont = 16 then loop16 pixels palette (width * height div 2) pixel_data_size 0 []
      else if cont = 0 then loop32 pixels ((pixel_data_size + 3) div 4) 0 []
      else Inr [])"

text \<open>
  The image of the library: \<open>Image.new('RGBA', (width, height))\<close> is filled with zeros
  (\<open>new_image\<close>). \<open>putdata\<close> refuses more entries than the image has pixels; otherwise it
  overwrites the pixels from the first one on in row-major order, storing each band of a
  tuple as a byte: a value below 0 is stored as 0, a value above 255 as 255.
\<close>

definition clip8 :: "int \<Rightarrow> byte" where
  "clip8 v = (if v \<le> 0 then 0 else if v < 256 then word_of_int v else 255)"

definition putdata :: "image \<Rightarrow> pixel list \<Rightarrow> error + image" where
  "putdata img img_data =
     (if length img_data > im_width img * im_height img then Inl TooManyData
      else Inr (img\<lparr>im_pixels :=
                  map (\<lambda>(r, g, b, a). (clip8 r, clip8 g, clip8 b, clip8 a)) img_data
                  @ drop (length img_data) (im_pixels img)\<rparr>))"

text \<open>
  \<open>process_tm2_file\<close> on the bytes of the file: it returns early on a file below 0x40
  bytes, and otherwise saves the image (\<open>Converted\<close>, with the image that was written),
  unless an exception escapes.
\<close>

datatype tm2_outcome = TooSmall | Converted image

definition process_tm2_file :: "byte list \<Rightarrow> error + tm2_outcome" where
  "process_tm2_file data =
     (if length data < 0x40 then Inr TooSmall
      else bnd (unpack_H (slice data 0x24 0x26)) (\<lambda>width.
           bnd (unpack_H (slice data 0x26 0x28)) (\<lambda>height.
           bnd (unpack_I (slice data 0x18 0x1C)) (\<lambda>pixel_data_size.
           let pixels = slice data 0x40 (0x40 + pixel_data_size);
               palette_data = drop (0x40 + pixel_data_size) data
           in bnd (unpack_H (slice data 0x1E 0x20)) (\<lambda>cont.
              bnd (palette_loop palette_data cont 0 []) (\<lambda>original_palette.
              let palette = resolve_palette cont original_palette
              in bnd (decode_pixels cont pixel_data_size width height pixels palette) (\<lambda>img_data.
                 bnd (putdata (new_image width height) img_data) (\<lambda>img.
                 bnd (save_image img) (\<lambda>saved.
                 Inr (Converted saved))))))))))"

text \<open>
  The loop of \<open>main\<close> over the files: a file whose decode returns is counted, an exception
  is caught and printed, and the loop goes on.
\<close>

fun main_loop :: "byte list list \<Rightarrow> nat \<Rightarrow> error list \<Rightarrow> nat \<times> error list" where
  "main_loop [] count printed = (count, printed)"
| "main_loop (data # files) count printed =
     (case process_tm2_file data of
        Inl e \<Rightarrow> main_loop files count (printed @ [e])
      | Inr outcome \<Rightarrow> main_loop files (count + 1) printed)"

text \<open>The little-endian values at a byte offset, for stating what the header fields are.\<close>

definition le16 :: "byte list \<Rightarrow> nat \<Rightarrow> nat" where
  "le16 data off = unat (data ! off) + 256 * unat (data ! (off + 1))"

definition le32 :: "byte list \<Rightarrow> nat \<Rightarrow> nat" where
  "le32 data off = unat (data ! off) + 256 * unat (data ! (off + 1))
                   + 65536 * unat (data ! (off + 2)) + 16777216 * unat (data ! (off + 3))"

text \<open>
  For stating the chained layout: the header record that the bytes at \<open>offset\<close> denote, and
  the blocks met by starting at \<open>offset\<close> and advancing by each block's total size, for at
  most \<open>n\<close> blocks and as long as 0x28 bytes remain.
\<close>

definition header_at :: "byte list \<Rightarrow> nat \<Rightarrow> picture_header" where
  "header_at data offset =
     \<lparr>h_total_size = le32 data offset,
      h_palette_size = le32 data (offset + 0x04),
      h_image_size_b = le32 data (offset + 0x08),
      h_header_size = (if le16 data (offset + 0x0C) = 0 then 0x80 else le16 data (offset + 0x0C)),
      h_color_count = le16 data (offset + 0x0E),
      h_format = data ! (offset + 0x10),
      h_mipmap_count = data ! (offset + 0x11),
      h_clut_format = data ! (offset + 0x12),
      h_bpp = data ! (offset + 0x13),
      h_width = le16 data (offset + 0x14),
      h_height = le16 data (offset + 0x16),
      h_image_offset =
        offset + (if le16 data (offset + 0x0C) = 0 then 0x80 else le16 data (offset + 0x0C)),
      h_palette_offset =
        offset + (if le16 data (offset + 0x0C) = 0 then 0x80 else le16 data (offset + 0x0C))
        + le32 data (offset + 0x08)\<rparr>"

fun header_chain :: "byte list \<Rightarrow> nat \<Rightarrow> nat \<Rightarrow> (nat \<times> picture_header) list" where
  "header_chain data 0 offset = []"
| "header_chain data (Suc n) offset =
     (if length data < offset + 0x28 then []
      else (offset, header_at data offset) # header_chain data n (offset + le32 data offset))"

text \<open>
  For stating what the legacy palette loop reads: entry \<open>k\<close> of the palette bytes, with the
  alpha value as the legacy decoder computes it.
\<close>

definition palette_entry :: "byte list \<Rightarrow> nat \<Rightarrow> pixel" where
  "palette_entry palette_data k =
     (uint (palette_data ! (k * 4)), uint (palette_data ! (k * 4 + 1)),
      uint (palette_data ! (k * 4 + 2)), alpha_legacy (palette_data ! (k * 4 + 3)))"

section \<open>Properties of the column compositor\<close>

subsection \<open>Closed forms of the candidate loops\<close>


lemma prefix_loop_closed:
  "prefix_loop hs s prefix = prefix @ map (\<lambda>k. s + sum_list (take (Suc k) hs)) [0 ..< length hs]"
proof (induction hs arbitrary: s prefix)
  case Nil
  then show ?case by simp
next
  case (Cons h hs)
  have "map (\<lambda>k. s + sum_list (take (Suc k) (h # hs))) [0 ..< length (h # hs)]
        = (s + h) # map (\<lambda>k. (s + h) + sum_list (take (Suc k) hs)) [0 ..< length hs]"
    by (simp add: upt_conv_Cons map_Suc_upt [symmetric] del: upt_Suc)
  then show ?case using Cons.IH by simp
qed

lemma remdups_drop_seen: "v \<in> set bs \<Longrightarrow> remdups (as @ v # bs) = remdups (as @ bs)"
  by (induction as) auto

lemma cand_loop_closed:
  "distinct cand \<Longrightarrow>
   cand_loop vs (set cand) cand = rev (remdups (rev (cand @ filter (\<lambda>v. 0 < v) vs)))"
proof (induction vs arbitrary: cand)
  case Nil
  then show ?case by (simp add: distinct_remdups_id)
next
  case (Cons v vs)
  show ?case
  proof (cases "0 < v \<and> v \<notin> set cand")
    case True
    then have "distinct (cand @ [v])" using Cons.prems by simp
    from Cons.IH [OF this] True show ?thesis by simp
  next
    case False
    show ?thesis
    proof (cases "0 < v")
      case True
      with False have "v \<in> set (rev cand)" by simp
      then have "remdups (rev (filter (\<lambda>v. 0 < v) vs) @ v # rev cand)
                 = remdups (rev (filter (\<lambda>v. 0 < v) vs) @ rev cand)"
        by (rule remdups_drop_seen)
      with True False Cons.IH [OF Cons.prems] show ?thesis by simp
    next
      case False
      with Cons.IH [OF Cons.prems] show ?thesis by simp
    qed
  qed
qed

lemma first_partition_find: "first_partition heights cand = find (can_partition heights) cand"
  by (induction cand) auto

lemma candidates_closed:
  "candidates heights =
     rev (remdups (rev (filter (\<lambda>v. 0 < v)
       (typical @ map (\<lambda>k. sum_list (take (Suc k) heights)) [0 ..< min 6 (length heights)]))))"
proof -
  have a: "cand_loop vs {} [] = rev (remdups (rev (filter (\<lambda>v. 0 < v) vs)))" for vs
    using cand_loop_closed [of "[]" vs] by simp
  have b: "map (\<lambda>k. sum_list (take (min (Suc k) (min 6 (length heights))) heights))
             [0 ..< min 6 (length heights)]
           = map (\<lambda>k. sum_list (take (Suc k) heights)) [0 ..< min 6 (length heights)]"
    by (rule map_cong) (auto simp: min_def)
  have "length (slice heights 0 (min 6 (length heights))) = min 6 (length heights)"
    by (simp add: slice_def)
  then show ?thesis
    unfolding candidates_def a prefix_loop_closed
    by (simp add: slice_def b)
qed

lemma place_loop_absent:
  "present images = [] \<Longrightarrow>
   place_loop H images positions col_widths x col_y col_w = (positions, col_widths, x, col_y, col_w)"
  by (induction images rule: present.induct) simp_all

lemma save_parts_loop_absent: "present images = [] \<Longrightarrow> save_parts_loop images = Inr ()"
  by (induction images rule: present.induct) simp_all

lemma present_empty_iff: "present images = [] \<longleftrightarrow> (\<forall>im \<in> set images. im = None)"
  by (induction images rule: present.induct) auto



subsection \<open>Three pictures of height 100\<close>

text \<open>
  C1, as stated, fails: for three pictures of height 100 (here of widths 2, 3 and 4) and no
  declared height, the first candidate that partitions the heights is the first prefix sum
  100, not 200, so every picture fills a column of its own and the second picture is placed
  at \<open>(2, 0)\<close>, not at \<open>(0, 100)\<close>.
\<close>

theorem compositor_three_images_counterexample:
  "infer_column_height [Some (new_image 2 100), Some (new_image 3 100), Some (new_image 4 100)] \<noteq> 200
   \<and> column_layout 0 [Some (new_image 2 100), Some (new_image 3 100), Some (new_image 4 100)]
       = (100, [(0, 0), (2, 0), (5, 0)], [2, 3, 4])
   \<and> fst (snd (column_layout 0
         [Some (new_image 2 100), Some (new_image 3 100), Some (new_image 4 100)])) ! 1 \<noteq> (0, 100)"
  by (simp add: column_layout_def infer_column_height_def candidates_def typical_def slice_def
        can_partition_def new_image_def)

text \<open>
  C1, amended: for a declared total height 0 and exactly three decoded pictures of height
  100 (of any widths \<open>w0\<close>, \<open>w1\<close>, \<open>w2\<close>), the inferred column height is 100 and the
  pictures are placed at \<open>(0, 0)\<close>, \<open>(w0, 0)\<close> and \<open>(w0 + w1, 0)\<close>, one column each.
  The candidates are the positive values of the fixed list 448, 480, 512, 384, 320, 256
  followed by the running prefix sums of the first up to 6 heights, each value kept at its
  first occurrence only; the first candidate that partitions the heights wins, and the sum
  of all heights is the fallback.
\<close>

theorem compositor_three_images:
  "column_layout 0 [Some \<lparr>im_width = w0, im_height = 100, im_pixels = p0\<rparr>,
                    Some \<lparr>im_width = w1, im_height = 100, im_pixels = p1\<rparr>,
                    Some \<lparr>im_width = w2, im_height = 100, im_pixels = p2\<rparr>]
     = (100, [(0, 0), (w0, 0), (w0 + w1, 0)], [w0, w1, w2])
   \<and> candidates heights =
       rev (remdups (rev (filter (\<lambda>v. 0 < v)
         ([448, 480, 512, 384, 320, 256]
          @ map (\<lambda>k. sum_list (take (Suc k) heights)) [0 ..< min 6 (length heights)]))))
   \<and> infer_column_height images =
       (if present images = [] then 0
        else case find (can_partition (map im_height (present images)))
                    (candidates (map im_height (present images))) of
               Some H \<Rightarrow> H
             | None \<Rightarrow> sum_list (map im_height (present images)))"
proof (intro conjI)
  show "column_layout 0 [Some \<lparr>im_width = w0, im_height = 100, im_pixels = p0\<rparr>,
                    Some \<lparr>im_width = w1, im_height = 100, im_pixels = p1\<rparr>,
                    Some \<lparr>im_width = w2, im_height = 100, im_pixels = p2\<rparr>]
     = (100, [(0, 0), (w0, 0), (w0 + w1, 0)], [w0, w1, w2])"
    by (simp add: column_layout_def infer_column_height_def candidates_def typical_def slice_def
        can_partition_def)
  show "candidates heights =
       rev (remdups (rev (filter (\<lambda>v. 0 < v)
         ([448, 480, 512, 384, 320, 256]
          @ map (\<lambda>k. sum_list (take (Suc k) heights)) [0 ..< min 6 (length heights)]))))"
    using candidates_closed [of heights] by (simp only: typical_def)
  show "infer_column_height images =
       (if present images = [] then 0
        else case find (can_partition (map im_height (present images)))
                    (candidates (map im_height (present images))) of
               Some H \<Rightarrow> H
             | None \<Rightarrow> sum_list (map im_height (present images)))"
    by (simp add: infer_column_height_def first_partition_find Let_def)
qed

theorem compositor_three_images_witness:
  "column_layout 0 [Some (new_image 2 100), Some (new_image 3 100), Some (new_image 4 100)]
     = (100, [(0, 0), (2, 0), (5, 0)], [2, 3, 4])
   \<and> candidates [100, 100, 100] = [448, 480, 512, 384, 320, 256, 100, 200, 300]
   \<and> infer_column_height [Some (new_image 2 100), None, Some (new_image 3 100)] = 100"
  using compositor_three_images [of 2 "replicate (2 * 100) (0, 0, 0, 0)" 3 "replicate (3 * 100) (0, 0, 0, 0)"
      4 "replicate (4 * 100) (0, 0, 0, 0)" "[100, 100, 100]"
      "[Some (new_image 2 100), None, Some (new_image 3 100)]"]
  by (simp add: new_image_def can_partition_def candidates_def typical_def slice_def)

subsection \<open>No picture decoded\<close>

text \<open>
  C10: when every entry of the decoded sequence is absent (or the sequence is empty) and
  the declared total width or total height is zero, \<open>compose_columns\<close> raises the
  \<open>max()\<close> of an empty sequence, and \<open>process_tex_file\<close> reports the file as failed with
  that error; when both declared sizes are nonzero it returns a canvas of the declared size
  whose pixels are all \<open>(0, 0, 0, 0)\<close>.
\<close>

theorem compose_all_absent:
  assumes "\<forall>im \<in> set images. im = None"
  shows "compose_columns total_width total_height images =
           (if total_width = 0 \<or> total_height = 0 then Inl MaxEmpty
            else Inr \<lparr>im_width = total_width, im_height = total_height,
                      im_pixels = replicate (total_width * total_height) (0, 0, 0, 0)\<rparr>)
         \<and> (TIM2Parser data = Inr parser
              \<and> images = fst (extract_all_images (self_data parser) (self_picture_headers parser))
              \<and> (self_total_width parser = 0 \<or> self_total_height parser = 0)
              \<longrightarrow> process_tex_file data save_parts = ERR MaxEmpty)"
proof -
  from assms have absent: "present images = []"
    by (simp add: present_empty_iff)
  have compose: "compose_columns tw th images =
           (if tw = 0 \<or> th = 0 then Inl MaxEmpty else Inr (new_image tw th))" for tw th
    using absent
    by (simp add: compose_columns_def column_layout_def infer_column_height_def
          place_loop_absent bnd_def Let_def)
  show ?thesis
  proof (intro conjI impI)
    show "compose_columns total_width total_height images =
           (if total_width = 0 \<or> total_height = 0 then Inl MaxEmpty
            else Inr \<lparr>im_width = total_width, im_height = total_height,
                      im_pixels = replicate (total_width * total_height) (0, 0, 0, 0)\<rparr>)"
      by (simp add: compose new_image_def)
  next
    assume a: "TIM2Parser data = Inr parser
              \<and> images = fst (extract_all_images (self_data parser) (self_picture_headers parser))
              \<and> (self_total_width parser = 0 \<or> self_total_height parser = 0)"
    then have zero: "self_total_width parser = 0 \<or> self_total_height parser = 0"
      by simp
    have "compose_columns (self_total_width parser) (self_total_height parser) images
               = Inl MaxEmpty"
      using zero by (subst compose) simp
    moreover from absent have "save_parts_loop images = Inr ()"
      by (rule save_parts_loop_absent)
    ultimately show "process_tex_file data save_parts = ERR MaxEmpty"
      using a by (simp add: process_tex_file_def case_prod_beta bnd_def)
  qed
qed

text \<open>
  The theorem at two inputs: a sequence of two absent pictures with declared size 3 by 0
  and 3 by 2, and the 12-byte file \<open>TIM2\<close> with no picture and no declared size.
\<close>

theorem compose_all_absent_witness:
  "compose_columns 3 0 [None, None] = Inl MaxEmpty
   \<and> compose_columns 3 2 [None, None]
       = Inr \<lparr>im_width = 3, im_height = 2, im_pixels = replicate 6 (0, 0, 0, 0)\<rparr>
   \<and> process_tex_file [0x54, 0x49, 0x4D, 0x32, 0, 0, 0, 0, 0, 0, 0, 0] True = ERR MaxEmpty"
proof -
  let ?data = "[0x54, 0x49, 0x4D, 0x32, 0, 0, 0, 0, 0, 0, 0, 0] :: byte list"
  let ?parser = "\<lparr>self_data = ?data, self_version = 0, self_picture_count = 0,
                  self_total_width = 0, self_total_height = 0, self_picture_headers = []\<rparr>"
  have none: "\<forall>im \<in> set [None, None :: image option]. im = None" by simp
  have empty: "\<forall>im \<in> set ([] :: image option list). im = None" by simp
  have parsed: "TIM2Parser ?data = Inr ?parser"
    by (simp add: TIM2Parser_def parse_header_def decode_ascii_ignore_def slice_def unpack_H_def
          bnd_def find_picture_headers_def char_of_eq_iff)
  have extracted: "[] = fst (extract_all_images (self_data ?parser) (self_picture_headers ?parser))"
    by (simp add: extract_all_images_def)
  from compose_all_absent [OF none, of 3 0] compose_all_absent [OF none, of 3 2]
    compose_all_absent [OF empty, of 0 0 ?data ?parser True] parsed extracted
  show ?thesis by simp
qed

section \<open>Properties of the chained container parser\<close>

subsection \<open>Bytes and header fields\<close>


lemma unat_byte_less: "unat (b :: byte) < 256"
  using unsigned_less [of b, where 'a = nat] by simp

lemma uint_byte_range: "0 \<le> uint (b :: byte) \<and> uint b < 256"
  using uint_lt2p [of b] by simp

lemma byte_of_unat: "unat (b :: byte) = n \<Longrightarrow> b = of_nat n"
  by auto

lemma byte_char_eq: "char_of (unat (b :: byte)) = c \<longleftrightarrow> unat b = of_char c"
proof -
  have "unat b < 256" by (rule unat_byte_less)
  then show ?thesis by (simp add: char_of_eq_iff take_bit_eq_mod)
qed

lemma decode_ascii_ignore_length: "length (decode_ascii_ignore bs) \<le> length bs"
  by (simp add: decode_ascii_ignore_def)

lemma filter_same_length: "length (filter P xs) = length xs \<Longrightarrow> filter P xs = xs"
proof (induction xs)
  case Nil
  then show ?case by simp
next
  case (Cons a xs)
  then show ?case
    using length_filter_le [of P xs]
    by (auto split: if_splits simp del: length_filter_le)
qed

lemma magic_iff:
  "decode_ascii_ignore (slice data 0 4) = ''TIM2'' \<longleftrightarrow> take 4 data = [0x54, 0x49, 0x4D, 0x32]"
proof -
  define bs where "bs = take 4 data"
  have len: "length bs \<le> 4" by (simp add: bs_def)
  have "decode_ascii_ignore bs = ''TIM2'' \<longleftrightarrow> bs = [0x54, 0x49, 0x4D, 0x32]"
  proof
    assume d: "decode_ascii_ignore bs = ''TIM2''"
    then have "length (decode_ascii_ignore bs) = length ''TIM2''"
      by (rule arg_cong)
    then have "length (filter (\<lambda>b. b < 0x80) bs) = 4"
      by (simp add: decode_ascii_ignore_def)
    with len have "length (filter (\<lambda>b. b < 0x80) bs) = length bs"
      using length_filter_le [of "\<lambda>b. b < 0x80" bs] by simp
    then have f: "filter (\<lambda>b. b < 0x80) bs = bs"
      by (rule filter_same_length)
    with d have m: "map (\<lambda>b. char_of (unat b)) bs = ''TIM2''"
      by (simp add: decode_ascii_ignore_def)
    then obtain b0 b1 b2 b3 where bs: "bs = [b0, b1, b2, b3]"
      by (auto simp: map_eq_Cons_conv)
    with m have "unat b0 = 0x54 \<and> unat b1 = 0x49 \<and> unat b2 = 0x4D \<and> unat b3 = 0x32"
      by (simp add: byte_char_eq)
    then have "b0 = 0x54 \<and> b1 = 0x49 \<and> b2 = 0x4D \<and> b3 = 0x32"
      using byte_of_unat [of b0] byte_of_unat [of b1] byte_of_unat [of b2] byte_of_unat [of b3]
      by simp
    with bs show "bs = [0x54, 0x49, 0x4D, 0x32]" by simp
  next
    assume "bs = [0x54, 0x49, 0x4D, 0x32]"
    then show "decode_ascii_ignore bs = ''TIM2''"
      by (simp add: decode_ascii_ignore_def char_of_eq_iff)
  qed
  then show ?thesis by (simp add: bs_def slice_def)
qed

lemma unpack_H_slice:
  "a + 2 = b \<Longrightarrow> b \<le> length data \<Longrightarrow> unpack_H (slice data a b) = Inr (le16 data a)"
  by (auto simp: unpack_H_def slice_def le16_def)

lemma unpack_I_slice:
  "a + 4 = b \<Longrightarrow> b \<le> length data \<Longrightarrow> unpack_I (slice data a b) = Inr (le32 data a)"
  by (auto simp: unpack_I_def slice_def le32_def)

lemma getitem_in_range: "i < length xs \<Longrightarrow> getitem xs i = Inr (xs ! i)"
  by (simp add: getitem_def)

lemma parse_picture_header_at_ok:
  assumes "offset + 0x28 \<le> length data"
  shows "parse_picture_header_at data offset = Inr (header_at data offset)"
  using assms
  by (simp add: parse_picture_header_at_def unpack_H_slice unpack_I_slice getitem_in_range
        bnd_def header_at_def Let_def)

lemma find_loop_chain:
  "find_loop data n offset picture_headers = Inr (picture_headers @ header_chain data n offset)"
proof (induction n arbitrary: offset picture_headers)
  case 0
  then show ?case by simp
next
  case (Suc n)
  show ?case
  proof (cases "length data < offset + 0x28")
    case True
    then show ?thesis by simp
  next
    case False
    then have "parse_picture_header_at data offset = Inr (header_at data offset)"
      by (simp add: parse_picture_header_at_ok)
    with False Suc.IH show ?thesis
      by (simp add: bnd_def header_at_def)
  qed
qed

lemma header_chain_length: "length (header_chain data n offset) \<le> n"
  by (induction n arbitrary: offset) auto

lemma header_chain_nth:
  "k < length (header_chain data n offset) \<Longrightarrow>
     fst (header_chain data n offset ! k) + 0x28 \<le> length data
     \<and> snd (header_chain data n offset ! k) = header_at data (fst (header_chain data n offset ! k))
     \<and> fst (header_chain data n offset ! k) =
         (if k = 0 then offset
          else fst (header_chain data n offset ! (k - 1))
               + h_total_size (snd (header_chain data n offset ! (k - 1))))"
proof (induction n arbitrary: offset k)
  case 0
  then show ?case by simp
next
  case (Suc n)
  from Suc.prems have fits: "\<not> length data < offset + 0x28"
    by (auto split: if_splits)
  show ?case
  proof (cases k)
    case 0
    with fits show ?thesis by simp
  next
    case (Suc j)
    with Suc.prems fits have j: "j < length (header_chain data n (offset + le32 data offset))"
      by simp
    from Suc.IH [OF j] Suc fits show ?thesis
      by (cases j) (simp_all add: header_at_def)
  qed
qed

lemma header_chain_stops:
  "length (header_chain data n offset) < n \<Longrightarrow>
     length data <
       (if header_chain data n offset = [] then offset
        else fst (last (header_chain data n offset))
             + h_total_size (snd (last (header_chain data n offset)))) + 0x28"
proof (induction n arbitrary: offset)
  case 0
  then show ?case by simp
next
  case (Suc n)
  show ?case
  proof (cases "length data < offset + 0x28")
    case True
    then show ?thesis by simp
  next
    case False
    with Suc.prems have "length (header_chain data n (offset + le32 data offset)) < n"
      by simp
    from Suc.IH [OF this] False show ?thesis
      by (auto simp: header_at_def split: if_splits)
  qed
qed

subsection \<open>The chain of picture headers\<close>

lemma find_picture_headers_chain:
  "find_picture_headers data picture_count = Inr (header_chain data picture_count 0x80)"
  by (simp add: find_picture_headers_def find_loop_chain)

lemma header_chain_numeral:
  "header_chain data (numeral k) offset =
     (if length data < offset + 0x28 then []
      else (offset, header_at data offset)
           # header_chain data (pred_numeral k) (offset + le32 data offset))"
  by (simp add: numeral_eq_Suc)

text \<open>
  C6: the headers found are a chain. The first is at 0x80; each next one is at the offset
  of the one before plus that block's total size; each has 0x28 bytes of the buffer from
  its offset on; a stored header size 0 counts as 0x80; the image offset is the header's
  offset plus the header size, the palette offset is the image offset plus the pixel byte
  size. The parser never fails here, finds at most \<open>picture_count\<close> headers, and finds
  fewer only when fewer than 0x28 bytes remain at the next offset.
\<close>

theorem picture_headers_chained:
  "\<exists>hs. find_picture_headers data picture_count = Inr hs
     \<and> length hs \<le> picture_count
     \<and> (\<forall>k < length hs.
            fst (hs ! k) = (if k = 0 then 0x80
                            else fst (hs ! (k - 1)) + h_total_size (snd (hs ! (k - 1))))
          \<and> fst (hs ! k) + 0x28 \<le> length data
          \<and> h_total_size (snd (hs ! k)) = le32 data (fst (hs ! k))
          \<and> h_image_size_b (snd (hs ! k)) = le32 data (fst (hs ! k) + 0x08)
          \<and> h_header_size (snd (hs ! k)) =
              (if le16 data (fst (hs ! k) + 0x0C) = 0 then 0x80
               else le16 data (fst (hs ! k) + 0x0C))
          \<and> h_image_offset (snd (hs ! k)) = fst (hs ! k) + h_header_size (snd (hs ! k))
          \<and> h_palette_offset (snd (hs ! k)) =
              h_image_offset (snd (hs ! k)) + h_image_size_b (snd (hs ! k)))
     \<and> (length hs < picture_count \<longrightarrow>
          length data < (if hs = [] then 0x80
                         else fst (last hs) + h_total_size (snd (last hs))) + 0x28)"
proof (intro exI conjI allI impI)
  let ?hs = "header_chain data picture_count 0x80"
  show "find_picture_headers data picture_count = Inr ?hs"
    by (rule find_picture_headers_chain)
  show "length ?hs \<le> picture_count"
    by (rule header_chain_length)
  show "length data < (if ?hs = [] then 0x80
                         else fst (last ?hs) + h_total_size (snd (last ?hs))) + 0x28"
    if "length ?hs < picture_count"
    using header_chain_stops [OF that] .
  fix k
  assume k: "k < length ?hs"
  note nth = header_chain_nth [OF k]
  from nth show "fst (?hs ! k) = (if k = 0 then 0x80
                            else fst (?hs ! (k - 1)) + h_total_size (snd (?hs ! (k - 1))))"
    by simp
  from nth show "fst (?hs ! k) + 0x28 \<le> length data"
    by simp
  from nth show "h_total_size (snd (?hs ! k)) = le32 data (fst (?hs ! k))"
    by (simp add: header_at_def)
  from nth show "h_image_size_b (snd (?hs ! k)) = le32 data (fst (?hs ! k) + 0x08)"
    by (simp add: header_at_def)
  from nth show "h_header_size (snd (?hs ! k)) =
              (if le16 data (fst (?hs ! k) + 0x0C) = 0 then 0x80
               else le16 data (fst (?hs ! k) + 0x0C))"
    by (simp add: header_at_def)
  from nth show "h_image_offset (snd (?hs ! k)) = fst (?hs ! k) + h_header_size (snd (?hs ! k))"
    by (simp add: header_at_def)
  from nth show "h_palette_offset (snd (?hs ! k)) =
              h_image_offset (snd (?hs ! k)) + h_image_size_b (snd (?hs ! k))"
    by (simp add: header_at_def)
qed

text \<open>
  The theorem on a buffer of 0xA8 bytes that declares two pictures: the block at 0x80 has
  total size 0x28, so the second header would start at 0xA8, where nothing is left.
\<close>

theorem picture_headers_chained_witness:
  "find_picture_headers (replicate 0x80 0 @ [0x28, 0, 0, 0] @ replicate 0x24 0) 2
     = Inr [(0x80, \<lparr>h_total_size = 0x28, h_palette_size = 0, h_image_size_b = 0,
                    h_header_size = 0x80, h_color_count = 0, h_format = 0, h_mipmap_count = 0,
                    h_clut_format = 0, h_bpp = 0, h_width = 0, h_height = 0,
                    h_image_offset = 0x100, h_palette_offset = 0x100\<rparr>)]
   \<and> length (replicate 0x80 0 @ [0x28, 0, 0, 0] @ replicate 0x24 (0 :: byte)) < 0x80 + 0x28 + 0x28"
proof -
  let ?data = "replicate 0x80 0 @ [0x28, 0, 0, 0] @ replicate 0x24 (0 :: byte)"
  let ?h = "\<lparr>h_total_size = 0x28, h_palette_size = 0, h_image_size_b = 0,
                    h_header_size = 0x80, h_color_count = 0, h_format = 0, h_mipmap_count = 0,
                    h_clut_format = 0, h_bpp = 0, h_width = 0, h_height = 0,
                    h_image_offset = 0x100, h_palette_offset = 0x100\<rparr>"
  have found: "find_picture_headers ?data 2 = Inr [(0x80, ?h)]"
    by (simp add: find_picture_headers_chain header_chain_numeral header_at_def le16_def
          le32_def nth_append)
  from picture_headers_chained [of ?data 2] obtain hs where
    hs: "find_picture_headers ?data 2 = Inr hs"
    and first: "\<forall>k < length hs. fst (hs ! k) = (if k = 0 then 0x80
                            else fst (hs ! (k - 1)) + h_total_size (snd (hs ! (k - 1))))
          \<and> fst (hs ! k) + 0x28 \<le> length ?data"
    and stop: "length hs < 2 \<longrightarrow>
          length ?data < (if hs = [] then 0x80
                         else fst (last hs) + h_total_size (snd (last hs))) + 0x28"
    by blast
  from hs found have "hs = [(0x80, ?h)]" by simp
  with stop have "length ?data < 0x80 + 0x28 + 0x28" by simp
  with found show ?thesis by simp
qed

subsection \<open>The magic tag\<close>

text \<open>
  C8: when the first four bytes are not \<open>TIM2\<close> (also when the buffer is shorter than four
  bytes) the header parser fails with \<open>BadMagic\<close>, so does the construction of the parser,
  before any picture header is looked for, and the file is reported as failed with that
  error; when they are \<open>TIM2\<close>, neither fails with \<open>BadMagic\<close>.
\<close>

theorem bad_magic:
  "(take 4 data \<noteq> [0x54, 0x49, 0x4D, 0x32] \<longrightarrow>
      parse_header data = Inl BadMagic \<and> TIM2Parser data = Inl BadMagic
      \<and> process_tex_file data save_parts = ERR BadMagic)
   \<and> (take 4 data = [0x54, 0x49, 0x4D, 0x32] \<longrightarrow>
      parse_header data \<noteq> Inl BadMagic \<and> TIM2Parser data \<noteq> Inl BadMagic)"
proof (intro conjI impI)
  assume bad: "take 4 data \<noteq> [0x54, 0x49, 0x4D, 0x32]"
  then show h: "parse_header data = Inl BadMagic"
    by (simp add: parse_header_def magic_iff)
  then show p: "TIM2Parser data = Inl BadMagic"
    by (simp add: TIM2Parser_def bnd_def)
  then show "process_tex_file data save_parts = ERR BadMagic"
    by (simp add: process_tex_file_def)
next
  assume good: "take 4 data = [0x54, 0x49, 0x4D, 0x32]"
  then show h: "parse_header data \<noteq> Inl BadMagic"
    by (auto simp: parse_header_def magic_iff bnd_def unpack_H_def split: sum.splits if_splits)
  then show "TIM2Parser data \<noteq> Inl BadMagic"
    by (auto simp: TIM2Parser_def bnd_def find_picture_headers_chain split: sum.splits)
qed

text \<open>
  The theorem on the tags \<open>TIM3\<close>, a non-ASCII byte followed by \<open>TIM2\<close>, and \<open>TIM2\<close> itself
  (with and without the rest of the header).
\<close>

theorem bad_magic_witness:
  "TIM2Parser [0x54, 0x49, 0x4D, 0x33, 0, 0, 0, 0, 0, 0, 0, 0] = Inl BadMagic
   \<and> process_tex_file [0x54, 0x49, 0x4D, 0x33, 0, 0, 0, 0, 0, 0, 0, 0] False = ERR BadMagic
   \<and> TIM2Parser [0xFF, 0x54, 0x49, 0x4D, 0x32] = Inl BadMagic
   \<and> TIM2Parser [0x54, 0x49, 0x4D, 0x32, 0, 0, 0, 0, 0, 0, 0, 0] \<noteq> Inl BadMagic
   \<and> TIM2Parser [0x54, 0x49, 0x4D, 0x32] \<noteq> Inl BadMagic"
  using bad_magic [of "[0x54, 0x49, 0x4D, 0x33, 0, 0, 0, 0, 0, 0, 0, 0]"]
    bad_magic [of "[0xFF, 0x54, 0x49, 0x4D, 0x32]"]
    bad_magic [of "[0x54, 0x49, 0x4D, 0x32, 0, 0, 0, 0, 0, 0, 0, 0]"]
    bad_magic [of "[0x54, 0x49, 0x4D, 0x32]"]
  by simp

section \<open>Properties of picture extraction\<close>

lemma extract_loop_closed:
  "extract_loop data hs is imgs printed =
     (imgs @ map (\<lambda>i. fst (extract_image data hs i)) is,
      printed @ concat (map (\<lambda>i. snd (extract_image data hs i)) is))"
  by (induction "is" arbitrary: imgs printed) (simp_all add: case_prod_beta)

lemma extract_all_images_closed:
  "extract_all_images data hs =
     (map (\<lambda>i. fst (extract_image data hs i)) [0 ..< length hs],
      concat (map (\<lambda>i. snd (extract_image data hs i)) [0 ..< length hs]))"
  by (simp add: extract_all_images_def extract_loop_closed)

lemma extract_image_None_iff:
  "i < length hs \<Longrightarrow>
   fst (extract_image data hs i) = None \<longleftrightarrow>
     (h_format (snd (hs ! i)) \<notin> {0x00, 0x03}
      \<or> length data < h_image_offset (snd (hs ! i))
                         + h_width (snd (hs ! i)) * h_height (snd (hs ! i)) * 4)"
  by (simp add: extract_image_def Let_def)

lemma extract_image_printed:
  "i < length hs \<Longrightarrow>
   snd (extract_image data hs i) =
     (if h_format (snd (hs ! i)) \<notin> {0x00, 0x03}
      then [UnsupportedFormat i (h_format (snd (hs ! i)))]
      else if length data < h_image_offset (snd (hs ! i))
                         + h_width (snd (hs ! i)) * h_height (snd (hs ! i)) * 4
      then [DataOverflow i] else [])"
  by (simp add: extract_image_def Let_def)

lemma extract_image_update_other:
  "i < length hs \<Longrightarrow> j < length hs \<Longrightarrow> j \<noteq> i \<Longrightarrow>
   extract_image data (hs[i := other]) j = extract_image data hs j"
  by (simp add: extract_image_def)

lemma concat_map_member:
  "i < n \<Longrightarrow> v \<in> set (f i) \<Longrightarrow> v \<in> set (concat (map f [0 ..< n]))"
  by auto

text \<open>
  C5: a picture whose format code is neither 0x00 nor 0x03, or whose pixel range
  \<open>image_offset + width * height * 4\<close> exceeds the buffer, is \<open>None\<close> in the output and
  its diagnostic is printed; the output has one entry per header; the entries of the other
  pictures do not depend on this picture's header; and an entry is \<open>None\<close> exactly when its
  own header has one of the two defects. \<open>extract_all_images\<close> itself cannot fail.
\<close>

theorem skipped_picture_absent:
  assumes i: "i < length hs"
    and skip: "h_format (snd (hs ! i)) \<notin> {0x00, 0x03}
               \<or> length data < h_image_offset (snd (hs ! i))
                                 + h_width (snd (hs ! i)) * h_height (snd (hs ! i)) * 4"
  shows "length (fst (extract_all_images data hs)) = length hs
    \<and> fst (extract_all_images data hs) ! i = None
    \<and> (if h_format (snd (hs ! i)) \<notin> {0x00, 0x03}
        then UnsupportedFormat i (h_format (snd (hs ! i)))
        else DataOverflow i) \<in> set (snd (extract_all_images data hs))
    \<and> (\<forall>j < length hs. j \<noteq> i \<longrightarrow>
          fst (extract_all_images data (hs[i := other])) ! j = fst (extract_all_images data hs) ! j)
    \<and> (\<forall>j < length hs.
          fst (extract_all_images data hs) ! j = None \<longleftrightarrow>
            (h_format (snd (hs ! j)) \<notin> {0x00, 0x03}
             \<or> length data < h_image_offset (snd (hs ! j))
                               + h_width (snd (hs ! j)) * h_height (snd (hs ! j)) * 4))"
proof (intro conjI allI impI)
  show "length (fst (extract_all_images data hs)) = length hs"
    by (simp add: extract_all_images_closed)
  from i skip show "fst (extract_all_images data hs) ! i = None"
    by (simp add: extract_all_images_closed extract_image_None_iff)
  show "(if h_format (snd (hs ! i)) \<notin> {0x00, 0x03}
        then UnsupportedFormat i (h_format (snd (hs ! i)))
        else DataOverflow i) \<in> set (snd (extract_all_images data hs))"
  proof (cases "h_format (snd (hs ! i)) \<notin> {0x00, 0x03}")
    case True
    with i have "snd (extract_image data hs i) = [UnsupportedFormat i (h_format (snd (hs ! i)))]"
      by (simp add: extract_image_printed)
    then have "UnsupportedFormat i (h_format (snd (hs ! i))) \<in> set (snd (extract_image data hs i))"
      by simp
    from concat_map_member [of i "length hs" _ "\<lambda>i. snd (extract_image data hs i)", OF i this] True show ?thesis
      by (simp add: extract_all_images_closed del: set_concat)
  next
    case False
    with skip have "length data < h_image_offset (snd (hs ! i))
                                 + h_width (snd (hs ! i)) * h_height (snd (hs ! i)) * 4"
      by blast
    with i False have "snd (extract_image data hs i) = [DataOverflow i]"
      by (simp add: extract_image_printed)
    then have "DataOverflow i \<in> set (snd (extract_image data hs i))"
      by simp
    from concat_map_member [of i "length hs" _ "\<lambda>i. snd (extract_image data hs i)", OF i this] False show ?thesis
      by (simp add: extract_all_images_closed del: set_concat)
  qed
next
  fix j assume "j < length hs" "j \<noteq> i"
  with i show "fst (extract_all_images data (hs[i := other])) ! j
                = fst (extract_all_images data hs) ! j"
    by (simp add: extract_all_images_closed extract_image_update_other)
next
  fix j assume "j < length hs"
  then show "fst (extract_all_images data hs) ! j = None \<longleftrightarrow>
            (h_format (snd (hs ! j)) \<notin> {0x00, 0x03}
             \<or> length data < h_image_offset (snd (hs ! j))
                               + h_width (snd (hs ! j)) * h_height (snd (hs ! j)) * 4)"
    by (simp add: extract_all_images_closed extract_image_None_iff)
qed

text \<open>
  The theorem on a four-byte buffer with two headers that point at it, the first with the
  unsupported format code 0x05: the second picture is decoded all the same, its single
  pixel \<open>[10, 20, 30, 200]\<close> with the alpha value adjusted to 255.
\<close>

theorem skipped_picture_absent_witness:
  "extract_all_images [10, 20, 30, 200]
     [(0x80, \<lparr>h_total_size = 0, h_palette_size = 0, h_image_size_b = 4, h_header_size = 0x80,
              h_color_count = 0, h_format = 0x05, h_mipmap_count = 0, h_clut_format = 0,
              h_bpp = 0, h_width = 1, h_height = 1, h_image_offset = 0,
              h_palette_offset = 4\<rparr>),
      (0x80, \<lparr>h_total_size = 0, h_palette_size = 0, h_image_size_b = 4, h_header_size = 0x80,
              h_color_count = 0, h_format = 0x00, h_mipmap_count = 0, h_clut_format = 0,
              h_bpp = 0, h_width = 1, h_height = 1, h_image_offset = 0,
              h_palette_offset = 4\<rparr>)]
   = ([None, Some \<lparr>im_width = 1, im_height = 1, im_pixels = [(10, 20, 30, 255)]\<rparr>],
      [UnsupportedFormat 0 0x05])"
proof -
  let ?bad = "\<lparr>h_total_size = 0, h_palette_size = 0, h_image_size_b = 4, h_header_size = 0x80,
              h_color_count = 0, h_format = 0x05, h_mipmap_count = 0, h_clut_format = 0,
              h_bpp = 0, h_width = 1, h_height = 1, h_image_offset = 0,
              h_palette_offset = 4\<rparr>"
  let ?good = "\<lparr>h_total_size = 0, h_palette_size = 0, h_image_size_b = 4, h_header_size = 0x80,
              h_color_count = 0, h_format = 0x00, h_mipmap_count = 0, h_clut_format = 0,
              h_bpp = 0, h_width = 1, h_height = 1, h_image_offset = 0,
              h_palette_offset = 4\<rparr>"
  let ?hs = "[(0x80 :: nat, ?bad), (0x80, ?good)]"
  have i: "0 < length ?hs" by simp
  have skip: "h_format (snd (?hs ! 0)) \<notin> {0x00, 0x03}
               \<or> length [10, 20, 30, 200 :: byte] < h_image_offset (snd (?hs ! 0))
                                 + h_width (snd (?hs ! 0)) * h_height (snd (?hs ! 0)) * 4"
    by simp
  from skipped_picture_absent [OF i skip, of "(0x80, ?good)"]
  have "fst (extract_all_images [10, 20, 30, 200] ?hs) ! 0 = None"
    by blast
  moreover have "fst (extract_all_images [10, 20, 30, 200] ?hs) ! 1
                 = Some \<lparr>im_width = 1, im_height = 1, im_pixels = [(10, 20, 30, 255)]\<rparr>"
    by (simp add: extract_all_images_closed extract_image_def slice_def alpha_eva_def)
  moreover have "length (fst (extract_all_images [10, 20, 30, 200] ?hs)) = 2"
    by (simp add: extract_all_images_closed)
  moreover have "snd (extract_all_images [10, 20, 30, 200] ?hs) = [UnsupportedFormat 0 0x05]"
    by (simp add: extract_all_images_closed extract_image_def)
  ultimately show ?thesis
    by (cases "extract_all_images [10, 20, 30, 200] ?hs")
       (auto simp: length_Suc_conv numeral_2_eq_2)
qed

subsection \<open>The alpha adjustment of the chained decoder\<close>

lemma alpha_eva_uint: "uint (alpha_eva a) = max 0 (min (uint a * 2 - 1) 255)"
proof -
  have r: "0 \<le> uint a \<and> uint a < 256" by (rule uint_byte_range)
  have "uint (word_of_int (max 0 (min (uint a * 2 - 1) 255)) :: byte)
          = max 0 (min (uint a * 2 - 1) 255)"
    by (simp add: uint_word_of_int min_def max_def)
  moreover have "min (max (min (uint a * 2 - 1) 255) 0) 255 = max 0 (min (uint a * 2 - 1) 255)"
    by (simp add: min_def max_def)
  ultimately show ?thesis by (simp add: alpha_eva_def Let_def)
qed

lemma alpha_eva_mono: "a \<le> b \<Longrightarrow> alpha_eva a \<le> alpha_eva b"
  by (simp add: word_le_def alpha_eva_uint min_def max_def)

lemma alpha_eva_values: "alpha_eva 0 = 0 \<and> alpha_eva 128 = 255 \<and> alpha_eva 255 = 255"
  by (simp add: alpha_eva_def)

lemma alpha_legacy_positive:
  "a \<noteq> 0 \<Longrightarrow> alpha_legacy a = max 0 (min (uint a * 2 - 1) 255)"
proof -
  assume "a \<noteq> 0"
  then have "uint a \<noteq> 0" by (simp add: uint_0_iff)
  with uint_byte_range [of a] have "1 \<le> uint a" by arith
  then show ?thesis by (simp add: alpha_legacy_def min_def max_def)
qed

section \<open>Properties of the legacy decoder\<close>

subsection \<open>Closed forms of the loops\<close>

lemma low_nibble: "unat ((b :: byte) AND 0xF) = unat b mod 16"
proof -
  have "(b AND 0xF) = take_bit 4 b"
    by (simp add: take_bit_eq_mask mask_eq_exp_minus_1)
  then have "unat (b AND 0xF) = take_bit 4 (unat b)"
    by (simp only: unsigned_take_bit_eq)
  then show ?thesis
    by (simp add: take_bit_eq_mod)
qed

lemma high_nibble: "unat (drop_bit 4 (b :: byte) AND 0xF) = unat b div 16"
proof -
  have "unat (drop_bit 4 b AND 0xF) = unat (drop_bit 4 b) mod 16"
    by (rule low_nibble)
  also have "unat (drop_bit 4 b) = drop_bit 4 (unat b)"
    by (simp only: unat_drop_bit_eq)
  also have "drop_bit 4 (unat b) = unat b div 16"
    by (simp add: drop_bit_eq_div)
  also have "unat b div 16 mod 16 = unat b div 16"
    using unat_byte_less [of b] by simp
  finally show ?thesis .
qed

lemma palette_loop_closed:
  "palette_loop pd n i acc =
     (if n = 0 \<or> (i + n) * 4 \<le> length pd
      then Inr (acc @ map (palette_entry pd) [i ..< i + n])
      else Inl IndexError)"
proof (induction n arbitrary: i acc)
  case 0
  then show ?case by simp
next
  case (Suc n)
  show ?case
  proof (cases "i * 4 + 3 < length pd")
    case True
    then have "palette_loop pd (Suc n) i acc
                 = palette_loop pd n (i + 1) (acc @ [palette_entry pd i])"
      by (simp add: getitem_def bnd_def palette_entry_def Let_def)
    also have "\<dots> = (if n = 0 \<or> (i + 1 + n) * 4 \<le> length pd
                      then Inr ((acc @ [palette_entry pd i]) @ map (palette_entry pd) [i + 1 ..< i + 1 + n])
                      else Inl IndexError)"
      by (rule Suc.IH)
    also have "\<dots> = (if (i + Suc n) * 4 \<le> length pd
                      then Inr (acc @ map (palette_entry pd) [i ..< i + Suc n])
                      else Inl IndexError)"
    proof -
      have u: "[i ..< i + Suc n] = i # [i + 1 ..< i + 1 + n]"
        by (simp add: upt_conv_Cons del: upt_Suc)
      have c: "(n = 0 \<or> (i + 1 + n) * 4 \<le> length pd) \<longleftrightarrow> (i + Suc n) * 4 \<le> length pd"
        using True by auto
      show ?thesis by (simp only: c u) simp
    qed
    finally show ?thesis by simp
  next
    case False
    then have "palette_loop pd (Suc n) i acc = Inl IndexError"
      by (auto simp: getitem_def bnd_def Let_def)
    with False show ?thesis by simp
  qed
qed

lemma loop32_closed:
  "loop32 pixels n i acc =
     (if n = 0 \<or> i + n * 4 \<le> length pixels
      then Inr (acc @ map (\<lambda>k. (uint (pixels ! (i + k * 4)), uint (pixels ! (i + k * 4 + 1)),
                                 uint (pixels ! (i + k * 4 + 2)),
                                 alpha_legacy (pixels ! (i + k * 4 + 3)))) [0 ..< n])
      else Inl IndexError)"
proof (induction n arbitrary: i acc)
  case 0
  then show ?case by simp
next
  case (Suc n)
  show ?case
  proof (cases "i + 3 < length pixels")
    case True
    let ?px = "\<lambda>i k. (uint (pixels ! (i + k * 4)), uint (pixels ! (i + k * 4 + 1)),
                       uint (pixels ! (i + k * 4 + 2)), alpha_legacy (pixels ! (i + k * 4 + 3)))"
    from True have "loop32 pixels (Suc n) i acc = loop32 pixels n (i + 4) (acc @ [?px i 0])"
      by (simp add: getitem_def bnd_def)
    also have "\<dots> = (if n = 0 \<or> i + 4 + n * 4 \<le> length pixels
                      then Inr ((acc @ [?px i 0]) @ map (?px (i + 4)) [0 ..< n])
                      else Inl IndexError)"
      by (rule Suc.IH)
    also have "map (?px (i + 4)) [0 ..< n] = map (\<lambda>k. ?px i (Suc k)) [0 ..< n]"
      by (simp add: add.assoc add.left_commute add.commute)
    also have "(acc @ [?px i 0]) @ map (\<lambda>k. ?px i (Suc k)) [0 ..< n] = acc @ map (?px i) [0 ..< Suc n]"
      by (simp add: upt_conv_Cons map_Suc_upt [symmetric] del: upt_Suc)
    finally show ?thesis using True by auto
  next
    case False
    then have "loop32 pixels (Suc n) i acc = Inl IndexError"
      by (auto simp: getitem_def bnd_def)
    with False show ?thesis by simp
  qed
qed

lemma take_Suc_drop: "i < length xs \<Longrightarrow> take (Suc k) (drop i xs) = xs ! i # take k (drop (Suc i) xs)"
  by (simp add: Cons_nth_drop_Suc [symmetric])

lemma loop256_closed:
  assumes "length palette = 256"
  shows "i \<le> stop \<Longrightarrow>
     loop256 pixels palette stop n i acc =
       (if min n (stop - i) = 0 \<or> i + min n (stop - i) \<le> length pixels
        then Inr (acc @ map (\<lambda>b. palette ! unat b) (take (min n (stop - i)) (drop i pixels)))
        else Inl IndexError)"
proof (induction n arbitrary: i acc)
  case 0
  then show ?case by simp
next
  case (Suc n)
  show ?case
  proof (cases "i = stop")
    case True
    then show ?thesis by simp
  next
    case False
    with Suc.prems have lt: "i < stop" by simp
    then have m: "min (Suc n) (stop - i) = Suc (min n (stop - (i + 1)))"
      by (auto simp: min_def)
    show ?thesis
    proof (cases "i < length pixels")
      case True
      have idx: "unat (pixels ! i) < length palette"
        using unat_byte_less [of "pixels ! i"] assms by simp
      from lt have "i + 1 \<le> stop" by simp
      note ih = Suc.IH [OF this, of "acc @ [palette ! unat (pixels ! i)]"]
      from True False idx have
        "loop256 pixels palette stop (Suc n) i acc
           = loop256 pixels palette stop n (i + 1) (acc @ [palette ! unat (pixels ! i)])"
        by (simp add: getitem_def bnd_def)
      with ih True show ?thesis
        by (simp only: m take_Suc_drop) simp
    next
      case nope: False
      with False have "loop256 pixels palette stop (Suc n) i acc = Inl IndexError"
        by (simp add: getitem_def bnd_def)
      with nope show ?thesis by (simp only: m) simp
    qed
  qed
qed

lemma high_nibble_mod: "unat (drop_bit 4 (b :: byte)) mod 16 = unat b div 16"
  using high_nibble [of b] by (simp add: low_nibble)

lemma loop16_closed:
  assumes "length palette = 16"
  shows "i \<le> stop \<Longrightarrow>
     loop16 pixels palette stop n i acc =
       (if min n (stop - i) = 0 \<or> i + min n (stop - i) \<le> length pixels
        then Inr (acc @ concat (map (\<lambda>b. [palette ! (unat b mod 16), palette ! (unat b div 16)])
                                  (take (min n (stop - i)) (drop i pixels))))
        else Inl IndexError)"
proof (induction n arbitrary: i acc)
  case 0
  then show ?case by simp
next
  case (Suc n)
  show ?case
  proof (cases "i = stop")
    case True
    then show ?thesis by simp
  next
    case False
    with Suc.prems have lt: "i < stop" by simp
    then have m: "min (Suc n) (stop - i) = Suc (min n (stop - (i + 1)))"
      by (auto simp: min_def)
    show ?thesis
    proof (cases "i < length pixels")
      case True
      have lo: "unat (pixels ! i) mod 16 < length palette"
        using assms by simp
      have hi: "unat (pixels ! i) div 16 < length palette"
        using unat_byte_less [of "pixels ! i"] assms by simp
      from lt have "i + 1 \<le> stop" by simp
      note ih = Suc.IH [OF this, of "acc @ [palette ! (unat (pixels ! i) mod 16)]
                                         @ [palette ! (unat (pixels ! i) div 16)]"]
      from True False lo hi have
        "loop16 pixels palette stop (Suc n) i acc
           = loop16 pixels palette stop n (i + 1)
               (acc @ [palette ! (unat (pixels ! i) mod 16)]
                    @ [palette ! (unat (pixels ! i) div 16)])"
        by (simp add: getitem_def bnd_def low_nibble high_nibble_mod)
      with ih True show ?thesis
        by (simp only: m take_Suc_drop) simp
    next
      case nope: False
      with False have "loop16 pixels palette stop (Suc n) i acc = Inl IndexError"
        by (simp add: getitem_def bnd_def)
      with nope show ?thesis by (simp only: m) simp
    qed
  qed
qed

lemma decode_pixels_256:
  "length palette = 256 \<Longrightarrow> min pixel_data_size (w * h) \<le> length pixels \<Longrightarrow>
   decode_pixels 256 pixel_data_size w h pixels palette
     = Inr (map (\<lambda>b. palette ! unat b) (take (min pixel_data_size (w * h)) pixels))"
  by (simp add: decode_pixels_def loop256_closed)

lemma decode_pixels_16:
  "length palette = 16 \<Longrightarrow> min pixel_data_size (w * h div 2) \<le> length pixels \<Longrightarrow>
   decode_pixels 16 pixel_data_size w h pixels palette
     = Inr (concat (map (\<lambda>b. [palette ! (unat b mod 16), palette ! (unat b div 16)])
                        (take (min pixel_data_size (w * h div 2)) pixels)))"
  by (simp add: decode_pixels_def loop16_closed)

subsection \<open>The pixel plane decode\<close>

lemma concat_pairs:
  "length (concat (map (\<lambda>b. [f b, g b]) bs)) = 2 * length bs
   \<and> (\<forall>k < length bs. concat (map (\<lambda>b. [f b, g b]) bs) ! (2 * k) = f (bs ! k)
                       \<and> concat (map (\<lambda>b. [f b, g b]) bs) ! (2 * k + 1) = g (bs ! k))"
proof (induction bs)
  case Nil
  then show ?case by simp
next
  case (Cons b bs)
  show ?case
  proof (intro conjI allI impI)
    show "length (concat (map (\<lambda>b. [f b, g b]) (b # bs))) = 2 * length (b # bs)"
      using Cons.IH by simp
  next
    fix k assume "k < length (b # bs)"
    then show "concat (map (\<lambda>b. [f b, g b]) (b # bs)) ! (2 * k) = f ((b # bs) ! k)"
      using Cons.IH by (cases k) simp_all
  next
    fix k assume "k < length (b # bs)"
    then show "concat (map (\<lambda>b. [f b, g b]) (b # bs)) ! (2 * k + 1) = g ((b # bs) ! k)"
      using Cons.IH by (cases k) simp_all
  qed
qed

text \<open>
  C7, amended. For a 256-colour picture whose block holds at least \<open>w * h\<close> index bytes,
  exactly \<open>w * h\<close> pixels come out, pixel \<open>k\<close> being \<open>palette[pixels[k]]\<close>, however many
  more bytes the block has. For a 16-colour picture whose block holds at least
  \<open>w * h div 2\<close> bytes, byte \<open>k\<close> gives pixel \<open>2k\<close> from its low nibble and pixel \<open>2k + 1\<close>
  from its high nibble, and \<open>2 * (w * h div 2)\<close> pixels come out: that is \<open>w * h\<close> when
  \<open>w * h\<close> is even. The byte 0x21 of a 2 by 1 picture gives the palette entries 1 and 2.
\<close>

theorem legacy_pixel_decode:
  "(length palette = 256 \<and> w * h \<le> pixel_data_size \<and> w * h \<le> length pixels \<longrightarrow>
      (\<exists>img. decode_pixels 256 pixel_data_size w h pixels palette = Inr img
             \<and> length img = w * h
             \<and> (\<forall>k < w * h. img ! k = palette ! unat (pixels ! k))))
   \<and> (length palette = 16 \<and> w * h div 2 \<le> pixel_data_size \<and> w * h div 2 \<le> length pixels \<longrightarrow>
      (\<exists>img. decode_pixels 16 pixel_data_size w h pixels palette = Inr img
             \<and> length img = 2 * (w * h div 2)
             \<and> (even (w * h) \<longrightarrow> length img = w * h)
             \<and> (\<forall>k < w * h div 2.
                   img ! (2 * k) = palette ! (unat (pixels ! k) mod 16)
                   \<and> img ! (2 * k + 1) = palette ! (unat (pixels ! k) div 16))))
   \<and> (length palette = 16 \<longrightarrow>
      decode_pixels 16 1 2 1 [0x21] palette = Inr [palette ! 1, palette ! 2])"
proof (intro conjI impI)
  assume a: "length palette = 256 \<and> w * h \<le> pixel_data_size \<and> w * h \<le> length pixels"
  then have m: "min pixel_data_size (w * h) = w * h" by simp
  from a have "decode_pixels 256 pixel_data_size w h pixels palette
                 = Inr (map (\<lambda>b. palette ! unat b) (take (w * h) pixels))"
    using decode_pixels_256 [of palette pixel_data_size w h pixels] by (simp add: m)
  moreover from a have "length (map (\<lambda>b. palette ! unat b) (take (w * h) pixels)) = w * h"
    by simp
  moreover have "\<forall>k < w * h. map (\<lambda>b. palette ! unat b) (take (w * h) pixels) ! k
                              = palette ! unat (pixels ! k)"
    using a by simp
  ultimately show "\<exists>img. decode_pixels 256 pixel_data_size w h pixels palette = Inr img
             \<and> length img = w * h
             \<and> (\<forall>k < w * h. img ! k = palette ! unat (pixels ! k))"
    by blast
next
  assume a: "length palette = 16 \<and> w * h div 2 \<le> pixel_data_size \<and> w * h div 2 \<le> length pixels"
  let ?n = "w * h div 2"
  let ?img = "concat (map (\<lambda>b. [palette ! (unat b mod 16), palette ! (unat b div 16)])
                          (take ?n pixels))"
  from a have m: "min pixel_data_size ?n = ?n" by simp
  from a have len: "length (take ?n pixels) = ?n" by simp
  from a have d: "decode_pixels 16 pixel_data_size w h pixels palette = Inr ?img"
    using decode_pixels_16 [of palette pixel_data_size w h pixels] by (simp add: m)
  note cp = concat_pairs [of "\<lambda>b. palette ! (unat b mod 16)" "\<lambda>b. palette ! (unat b div 16)"
                            "take ?n pixels"]
  from cp len have l: "length ?img = 2 * ?n" by simp
  then have e: "even (w * h) \<longrightarrow> length ?img = w * h" by simp
  have n: "\<forall>k < ?n. ?img ! (2 * k) = palette ! (unat (pixels ! k) mod 16)
                   \<and> ?img ! (2 * k + 1) = palette ! (unat (pixels ! k) div 16)"
  proof (intro allI impI)
    fix k assume k: "k < ?n"
    with len have "k < length (take ?n pixels)" by simp
    with cp have "?img ! (2 * k) = palette ! (unat (take ?n pixels ! k) mod 16)
                   \<and> ?img ! (2 * k + 1) = palette ! (unat (take ?n pixels ! k) div 16)"
      by blast
    with k show "?img ! (2 * k) = palette ! (unat (pixels ! k) mod 16)
                   \<and> ?img ! (2 * k + 1) = palette ! (unat (pixels ! k) div 16)"
      by simp
  qed
  from d l e n show "\<exists>img. decode_pixels 16 pixel_data_size w h pixels palette = Inr img
             \<and> length img = 2 * (w * h div 2)
             \<and> (even (w * h) \<longrightarrow> length img = w * h)
             \<and> (\<forall>k < w * h div 2.
                   img ! (2 * k) = palette ! (unat (pixels ! k) mod 16)
                   \<and> img ! (2 * k + 1) = palette ! (unat (pixels ! k) div 16))"
    by blast
next
  assume "length palette = 16"
  then show "decode_pixels 16 1 2 1 [0x21] palette = Inr [palette ! 1, palette ! 2]"
    using decode_pixels_16 [of palette 1 2 1 "[0x21]"] by simp
qed

text \<open>
  C7, as stated, fails for an odd number of pixels: a 16-colour picture of 3 by 1 with two
  bytes in its block yields two pixels, not three, since the loop breaks at index
  \<open>3 div 2 = 1\<close>.
\<close>

theorem legacy_pixel_decode_counterexample:
  "decode_pixels 16 2 3 1 [0x21, 0x43] (map (\<lambda>k. (int k, 0, 0, 255)) [0 ..< 16])
     = Inr [(1, 0, 0, 255), (2, 0, 0, 255)]
   \<and> length [(1, 0, 0, 255), (2, 0, 0, 255) :: pixel] \<noteq> 3 * 1"
  using decode_pixels_16 [of "map (\<lambda>k. (int k, 0, 0, 255)) [0 ..< 16]" 2 3 1 "[0x21, 0x43]"]
  by simp

text \<open>
  The theorem on the byte 0x21 with a 16-entry palette, and on a 2 by 1 picture of 256
  colours whose block has three index bytes.
\<close>

theorem legacy_pixel_decode_witness:
  "decode_pixels 16 1 2 1 [0x21] (map (\<lambda>k. (int k, 0, 0, 255)) [0 ..< 16])
     = Inr [(1, 0, 0, 255), (2, 0, 0, 255)]
   \<and> (\<exists>img. decode_pixels 256 3 2 1 [0, 255, 7] (map (\<lambda>k. (int k, 0, 0, 255)) [0 ..< 256]) = Inr img
          \<and> length img = 2 \<and> img ! 0 = (0, 0, 0, 255) \<and> img ! 1 = (255, 0, 0, 255))"
proof -
  let ?p16 = "map (\<lambda>k. (int k, 0, 0, 255 :: int)) [0 ..< 16]"
  let ?p256 = "map (\<lambda>k. (int k, 0, 0, 255 :: int)) [0 ..< 256]"
  note t16 = legacy_pixel_decode [of ?p16 2 1 1 "[0x21]"]
  note t256 = legacy_pixel_decode [of ?p256 2 1 3 "[0, 255, 7]"]
  from t16 have a: "decode_pixels 16 1 2 1 [0x21] ?p16 = Inr [(1, 0, 0, 255), (2, 0, 0, 255)]"
    by simp
  from t256 obtain img where
    d: "decode_pixels 256 3 2 1 [0, 255, 7] ?p256 = Inr img" and l: "length img = 2"
    and px: "\<forall>k < 2. img ! k = ?p256 ! unat ([0, 255, 7 :: byte] ! k)"
    by auto
  from px [rule_format, of 0] have p0: "img ! 0 = (0, 0, 0, 255)" by simp
  from px [rule_format, of 1] have p1: "img ! 1 = (255, 0, 0, 255)" by simp
  from a d l p0 p1 show ?thesis by blast
qed

subsection \<open>Reads past the end of the buffer\<close>

lemma process_tm2_file_unfold:
  assumes "0x40 \<le> length data"
  shows "process_tm2_file data =
     bnd (palette_loop (drop (0x40 + le32 data 0x18) data) (le16 data 0x1E) 0 [])
       (\<lambda>original_palette.
          bnd (decode_pixels (le16 data 0x1E) (le32 data 0x18) (le16 data 0x24) (le16 data 0x26)
                 (slice data 0x40 (0x40 + le32 data 0x18))
                 (resolve_palette (le16 data 0x1E) original_palette))
            (\<lambda>img_data.
               bnd (putdata (new_image (le16 data 0x24) (le16 data 0x26)) img_data)
                 (\<lambda>img. bnd (save_image img) (\<lambda>saved. Inr (Converted saved)))))"
proof -
  from assms have
    "unpack_H (slice data 0x24 0x26) = Inr (le16 data 0x24)"
    "unpack_H (slice data 0x26 0x28) = Inr (le16 data 0x26)"
    "unpack_I (slice data 0x18 0x1C) = Inr (le32 data 0x18)"
    "unpack_H (slice data 0x1E 0x20) = Inr (le16 data 0x1E)"
    by (simp_all add: unpack_H_slice unpack_I_slice)
  with assms show ?thesis
    by (simp add: process_tm2_file_def bnd_def Let_def)
qed

lemma palette_loop_overflow:
  "0 < cont \<Longrightarrow> length pd < cont * 4 \<Longrightarrow> palette_loop pd cont 0 [] = Inl IndexError"
  by (simp add: palette_loop_closed)

lemma palette_loop_ok:
  "cont * 4 \<le> length pd \<Longrightarrow>
   palette_loop pd cont 0 [] = Inr (map (palette_entry pd) [0 ..< cont])"
  by (simp add: palette_loop_closed)

text \<open>
  C3, amended: for a buffer of at least 0x40 bytes, when the palette entry count at 0x1E
  is positive and its \<open>4 * cont\<close> palette bytes after the pixel block do not fit in the
  buffer, or when the count is 0 and the pixel block of the size at 0x18 does not fit,
  \<open>process_tm2_file\<close> raises \<open>IndexError\<close>: the exception leaves the per-picture decode.
  It is caught by the loop of \<open>main\<close>, which prints it, does not count the file and goes
  on with the next file.
\<close>

theorem legacy_overflow_raises:
  assumes "0x40 \<le> length data"
    and "(0 < le16 data 0x1E \<and> length data < 0x40 + le32 data 0x18 + 4 * le16 data 0x1E)
         \<or> (le16 data 0x1E = 0 \<and> length data < 0x40 + le32 data 0x18)"
  shows "process_tm2_file data = Inl IndexError
         \<and> main_loop (data # files) count printed = main_loop files count (printed @ [IndexError])"
proof -
  let ?cont = "le16 data 0x1E" and ?pds = "le32 data 0x18"
  have "process_tm2_file data = Inl IndexError"
  proof (cases "0 < ?cont")
    case True
    with assms(2) have "length data < 0x40 + ?pds + 4 * ?cont" by auto
    with True have "length (drop (0x40 + ?pds) data) < ?cont * 4" by simp
    with True have "palette_loop (drop (0x40 + ?pds) data) ?cont 0 [] = Inl IndexError"
      by (rule palette_loop_overflow)
    then show ?thesis
      by (simp add: process_tm2_file_unfold [OF assms(1)] bnd_def)
  next
    case False
    with assms(2) have zero: "?cont = 0" and short: "length data < 0x40 + ?pds" by auto
    from short assms(1) have len: "length (slice data 0x40 (0x40 + ?pds)) < ?pds"
      by (simp add: slice_def)
    have "?pds \<le> (?pds + 3) div 4 * 4" by arith
    with len have "\<not> (?pds + 3) div 4 * 4 \<le> length (slice data 0x40 (0x40 + ?pds))"
      by simp
    moreover from len have "(?pds + 3) div 4 \<noteq> 0" by simp
    ultimately have "loop32 (slice data 0x40 (0x40 + ?pds)) ((?pds + 3) div 4) 0 [] = Inl IndexError"
      by (simp add: loop32_closed)
    with zero show ?thesis
      by (simp add: process_tm2_file_unfold [OF assms(1)] bnd_def decode_pixels_def)
  qed
  then show ?thesis by simp
qed

text \<open>
  C3, as stated, fails: a header of 0x40 bytes that declares 16 palette entries, with
  nothing after it, makes the decode raise \<open>IndexError\<close>.
\<close>

theorem legacy_overflow_counterexample:
  "0x40 \<le> length (replicate 0x1E 0 @ [16, 0] @ replicate 0x20 (0 :: byte))
   \<and> process_tm2_file (replicate 0x1E 0 @ [16, 0] @ replicate 0x20 0) = Inl IndexError"
proof -
  let ?data = "replicate 0x1E 0 @ [16, 0] @ replicate 0x20 (0 :: byte)"
  have len: "0x40 \<le> length ?data" by simp
  have cont: "le16 ?data 0x1E = 16" by (simp add: le16_def nth_append)
  have pds: "le32 ?data 0x18 = 0" by (simp add: le32_def nth_append)
  have pl: "palette_loop (drop (0x40 + le32 ?data 0x18) ?data) (le16 ?data 0x1E) 0 []
              = Inl IndexError"
    unfolding cont pds by (simp add: palette_loop_closed)
  have "process_tm2_file ?data = Inl IndexError"
    by (subst process_tm2_file_unfold [OF len]) (simp only: pl bnd_def sum.case)
  with len show ?thesis by blast
qed

text \<open>
  The theorem on the same buffer, followed in the batch by an empty file (which is below
  0x40 bytes, returns early and is counted).
\<close>

theorem legacy_overflow_raises_witness:
  "process_tm2_file (replicate 0x1E 0 @ [16, 0] @ replicate 0x20 0) = Inl IndexError
   \<and> main_loop [replicate 0x1E 0 @ [16, 0] @ replicate 0x20 0, []] 0 [] = (1, [IndexError])"
proof -
  let ?data = "replicate 0x1E 0 @ [16, 0] @ replicate 0x20 (0 :: byte)"
  have len: "0x40 \<le> length ?data" by simp
  have cont: "le16 ?data 0x1E = 16" by (simp add: le16_def nth_append)
  have pds: "le32 ?data 0x18 = 0" by (simp add: le32_def nth_append)
  have over: "(0 < le16 ?data 0x1E \<and> length ?data < 0x40 + le32 ?data 0x18 + 4 * le16 ?data 0x1E)
         \<or> (le16 ?data 0x1E = 0 \<and> length ?data < 0x40 + le32 ?data 0x18)"
    unfolding cont pds by simp
  have small: "process_tm2_file [] = Inr TooSmall"
    by (simp add: process_tm2_file_def)
  from legacy_overflow_raises [OF len over, of "[[]]" 0 "[]"] small show ?thesis
    by simp
qed

subsection \<open>A palette count other than 0, 16 and 256\<close>

text \<open>
  C9, as stated, fails for a picture without pixels: with the palette count 1, its four
  palette bytes present and width and height 0, no image is written, since saving the
  empty image raises.
\<close>

theorem unknown_palette_count_counterexample:
  "0x40 \<le> length (replicate 0x1E 0 @ [1, 0] @ replicate 0x20 0 @ [9, 9, 9, 9 :: byte])
   \<and> le16 (replicate 0x1E 0 @ [1, 0] @ replicate 0x20 0 @ [9, 9, 9, 9]) 0x1E = 1
   \<and> process_tm2_file (replicate 0x1E 0 @ [1, 0] @ replicate 0x20 0 @ [9, 9, 9, 9])
       = Inl SaveEmptyImage"
proof -
  let ?data = "replicate 0x1E 0 @ [1, 0] @ replicate 0x20 0 @ [9, 9, 9, 9 :: byte]"
  have len: "0x40 \<le> length ?data" by simp
  have cont: "le16 ?data 0x1E = 1" by (simp add: le16_def nth_append)
  have pds: "le32 ?data 0x18 = 0" by (simp add: le32_def nth_append)
  have w: "le16 ?data 0x24 = 0" by (simp add: le16_def nth_append)
  have h: "le16 ?data 0x26 = 0" by (simp add: le16_def nth_append)
  have pd: "drop (0x40 + 0) ?data = [9, 9, 9, 9]" by simp
  have pl: "palette_loop [9, 9, 9, 9] 1 0 [] = Inr (map (palette_entry [9, 9, 9, 9]) [0 ..< 1])"
    by (rule palette_loop_ok) simp
  have dp: "decode_pixels 1 a b c d e = Inr []" for a b c d e
    by (simp add: decode_pixels_def)
  have put: "putdata (new_image 0 0) [] = Inr (new_image 0 0)"
    by (simp add: putdata_def new_image_def)
  have sv: "save_image (new_image 0 0) = Inl SaveEmptyImage"
    by (simp add: save_image_def new_image_def)
  have "process_tm2_file ?data = Inl SaveEmptyImage"
    by (subst process_tm2_file_unfold [OF len])
       (simp only: cont pds w h pd pl dp put sv bnd_def sum.case)
  with len cont show ?thesis by blast
qed

text \<open>
  C9, amended: for a buffer of at least 0x40 bytes whose palette entry count is none of 0,
  16 and 256, whose palette bytes are all there and whose picture has at least one pixel
  (\<open>width * height > 0\<close>), no pixel is decoded (\<open>img_data\<close> stays empty), and the image
  that is written has the declared size and only pixels \<open>(0, 0, 0, 0)\<close>; the file is
  reported as converted, like any other.
\<close>

theorem unknown_palette_count_blank:
  assumes "0x40 \<le> length data"
    and "le16 data 0x1E \<notin> {0, 16, 256}"
    and "0x40 + le32 data 0x18 + 4 * le16 data 0x1E \<le> length data"
    and "0 < le16 data 0x24 * le16 data 0x26"
  shows "process_tm2_file data =
           Inr (Converted \<lparr>im_width = le16 data 0x24, im_height = le16 data 0x26,
                           im_pixels = replicate (le16 data 0x24 * le16 data 0x26) (0, 0, 0, 0)\<rparr>)
         \<and> decode_pixels (le16 data 0x1E) pixel_data_size w h pixels palette = Inr []"
proof -
  let ?cont = "le16 data 0x1E" and ?pds = "le32 data 0x18"
  from assms(3) have "?cont * 4 \<le> length (drop (0x40 + ?pds) data)" by simp
  then have pl: "palette_loop (drop (0x40 + ?pds) data) ?cont 0 []
                   = Inr (map (palette_entry (drop (0x40 + ?pds) data)) [0 ..< ?cont])"
    by (rule palette_loop_ok)
  from assms(2) have dp: "decode_pixels ?cont a b c d e = Inr []" for a b c d e
    by (simp add: decode_pixels_def)
  from assms(4) show ?thesis
    by (simp add: process_tm2_file_unfold [OF assms(1)] pl dp bnd_def new_image_def putdata_def
          save_image_def)
qed

text \<open>The theorem on a 2 by 1 picture that declares one palette entry.\<close>

theorem unknown_palette_count_blank_witness:
  "process_tm2_file (replicate 0x1E 0 @ [1, 0] @ replicate 4 0 @ [2, 0, 1, 0]
                     @ replicate 0x18 0 @ [9, 9, 9, 9])
     = Inr (Converted \<lparr>im_width = 2, im_height = 1, im_pixels = [(0, 0, 0, 0), (0, 0, 0, 0)]\<rparr>)"
proof -
  let ?data = "replicate 0x1E 0 @ [1, 0] @ replicate 4 0 @ [2, 0, 1, 0]
                     @ replicate 0x18 0 @ [9, 9, 9, 9 :: byte]"
  have len: "0x40 \<le> length ?data" by simp
  have cont: "le16 ?data 0x1E = 1" by (simp add: le16_def nth_append)
  have pds: "le32 ?data 0x18 = 0" by (simp add: le32_def nth_append)
  have w: "le16 ?data 0x24 = 2" by (simp add: le16_def nth_append)
  have h: "le16 ?data 0x26 = 1" by (simp add: le16_def nth_append)
  have c: "le16 ?data 0x1E \<notin> {0, 16, 256}" unfolding cont by simp
  have fits: "0x40 + le32 ?data 0x18 + 4 * le16 ?data 0x1E \<le> length ?data"
    unfolding cont pds by simp
  have pos: "0 < le16 ?data 0x24 * le16 ?data 0x26"
    unfolding w h by simp
  from unknown_palette_count_blank [OF len c fits pos]
  have "process_tm2_file ?data =
           Inr (Converted \<lparr>im_width = le16 ?data 0x24, im_height = le16 ?data 0x26,
                           im_pixels = replicate (le16 ?data 0x24 * le16 ?data 0x26) (0, 0, 0, 0)\<rparr>)"
    by blast
  then show ?thesis
    unfolding w h by (simp add: numeral_2_eq_2)
qed

subsection \<open>The alpha adjustment in both decoders\<close>

lemma clip8_uint: "uint (clip8 v) = max 0 (min v 255)"
proof -
  have "uint (word_of_int v :: byte) = v" if "0 < v" "v < 256"
    using that by (simp add: uint_word_of_int)
  then show ?thesis
    by (simp add: clip8_def min_def max_def)
qed

lemma clip8_byte: "clip8 (uint (b :: byte)) = b"
proof -
  have "uint (clip8 (uint b)) = uint b"
    using uint_byte_range [of b] by (simp add: clip8_uint min_def max_def)
  then show ?thesis by (simp only: word_uint_eq_iff)
qed

lemma clip8_alpha_legacy: "clip8 (alpha_legacy a) = alpha_eva a"
proof -
  have "uint (clip8 (alpha_legacy a)) = uint (alpha_eva a)"
    by (simp add: clip8_uint alpha_eva_uint alpha_legacy_def min_def max_def)
  then show ?thesis by (simp only: word_uint_eq_iff)
qed

text \<open>
  C2: in the chained decoder the adjusted alpha byte is \<open>min(a * 2 - 1, 255)\<close> clamped
  below at 0. In the legacy decoder the value computed for palette entries and for
  direct-colour pixels is \<open>min(a * 2 - 1, 255)\<close>, and the byte stored in the image that is
  written is that value clamped below at 0: the same byte as in the chained decoder. The
  adjustment maps 0 to 0, 128 to 255 and 255 to 255, and it is monotonic.
\<close>

theorem alpha_correction:
  "uint (alpha_eva a) = max 0 (min (uint a * 2 - 1) 255)
   \<and> uint (clip8 (alpha_legacy a)) = max 0 (min (uint a * 2 - 1) 255)
   \<and> arr_pixels [r, g, b, a] = [(r, g, b, alpha_eva a)]
   \<and> palette_loop [r, g, b, a] 1 0 [] = Inr [(uint r, uint g, uint b, alpha_legacy a)]
   \<and> loop32 [r, g, b, a] 1 0 [] = Inr [(uint r, uint g, uint b, alpha_legacy a)]
   \<and> putdata (new_image 1 1) [(uint r, uint g, uint b, alpha_legacy a)]
       = Inr \<lparr>im_width = 1, im_height = 1, im_pixels = [(r, g, b, alpha_eva a)]\<rparr>
   \<and> alpha_eva 0 = 0 \<and> alpha_eva 128 = 255 \<and> alpha_eva 255 = 255
   \<and> clip8 (alpha_legacy 0) = 0 \<and> clip8 (alpha_legacy 128) = 255
   \<and> clip8 (alpha_legacy 255) = 255
   \<and> (a \<le> a' \<longrightarrow> alpha_eva a \<le> alpha_eva a'
                   \<and> clip8 (alpha_legacy a) \<le> clip8 (alpha_legacy a'))"
proof (intro conjI impI)
  show "uint (alpha_eva a) = max 0 (min (uint a * 2 - 1) 255)"
    by (rule alpha_eva_uint)
  show "uint (clip8 (alpha_legacy a)) = max 0 (min (uint a * 2 - 1) 255)"
    by (simp only: clip8_alpha_legacy alpha_eva_uint)
  show "arr_pixels [r, g, b, a] = [(r, g, b, alpha_eva a)]"
    by simp
  show "palette_loop [r, g, b, a] 1 0 [] = Inr [(uint r, uint g, uint b, alpha_legacy a)]"
    by (simp add: palette_loop_closed palette_entry_def)
  show "loop32 [r, g, b, a] 1 0 [] = Inr [(uint r, uint g, uint b, alpha_legacy a)]"
    by (simp add: loop32_closed)
  show "putdata (new_image 1 1) [(uint r, uint g, uint b, alpha_legacy a)]
       = Inr \<lparr>im_width = 1, im_height = 1, im_pixels = [(r, g, b, alpha_eva a)]\<rparr>"
    by (simp add: putdata_def new_image_def clip8_byte clip8_alpha_legacy)
  show "alpha_eva 0 = 0" "alpha_eva 128 = 255" "alpha_eva 255 = 255"
    using alpha_eva_values by simp_all
  show "clip8 (alpha_legacy 0) = 0" "clip8 (alpha_legacy 128) = 255"
    "clip8 (alpha_legacy 255) = 255"
    using alpha_eva_values by (simp_all only: clip8_alpha_legacy)
next
  assume le: "a \<le> a'"
  then show "alpha_eva a \<le> alpha_eva a'"
    by (rule alpha_eva_mono)
  from le show "clip8 (alpha_legacy a) \<le> clip8 (alpha_legacy a')"
    by (simp only: clip8_alpha_legacy alpha_eva_mono)
qed

text \<open>
  The theorem on the raw alpha values 0 and 200: a legacy pixel with raw alpha 0 is
  written with alpha 0, and the adjustment of 0 is below that of 200.
\<close>

theorem alpha_correction_witness:
  "(0 :: byte) \<le> 200
   \<and> alpha_eva 0 \<le> alpha_eva 200
   \<and> clip8 (alpha_legacy 0) \<le> clip8 (alpha_legacy 200)
   \<and> uint (alpha_eva 200) = 255
   \<and> alpha_legacy 0 = - 1
   \<and> putdata (new_image 1 1) [(10, 20, 30, alpha_legacy 0)]
       = Inr \<lparr>im_width = 1, im_height = 1, im_pixels = [(10, 20, 30, 0)]\<rparr>"
proof -
  have le: "(0 :: byte) \<le> 200" by simp
  note t = alpha_correction [of 0 10 20 30 200]
  from t le have "alpha_eva 0 \<le> alpha_eva 200 \<and> clip8 (alpha_legacy 0) \<le> clip8 (alpha_legacy 200)"
    by blast
  moreover from alpha_correction [of 200 10 20 30 200] have "uint (alpha_eva 200) = 255"
    by simp
  moreover have "alpha_legacy 0 = - 1" by (simp add: alpha_legacy_def)
  moreover from t have "putdata (new_image 1 1) [(10, 20, 30, alpha_legacy 0)]
       = Inr \<lparr>im_width = 1, im_height = 1, im_pixels = [(10, 20, 30, 0)]\<rparr>"
    by (simp add: alpha_eva_def)
  ultimately show ?thesis using le by blast
qed

section \<open>The palette reorder\<close>

lemma slice_map_nth:
  "a \<le> b \<Longrightarrow> b \<le> length xs \<Longrightarrow> slice xs a b = map (\<lambda>j. xs ! (a + j)) [0 ..< b - a]"
  by (rule nth_equalityI) (simp_all add: slice_def)

lemma reorder_loop_closed:
  "reorder_loop original starts palette =
     palette @ concat (map (\<lambda>s. slice (slice original s (s + 32)) 0 8
                                 @ slice (slice original s (s + 32)) 16 24
                                 @ slice (slice original s (s + 32)) 8 16
                                 @ slice (slice original s (s + 32)) 24 32) starts)"
  by (induction starts arbitrary: palette) (simp_all add: Let_def)

lemma reordered_group:
  assumes "s + 32 \<le> length original"
  shows "slice (slice original s (s + 32)) 0 8 @ slice (slice original s (s + 32)) 16 24
         @ slice (slice original s (s + 32)) 8 16 @ slice (slice original s (s + 32)) 24 32
         = map (\<lambda>j. original ! (s + (if 8 \<le> j \<and> j < 16 then j + 8
                                        else if 16 \<le> j \<and> j < 24 then j - 8 else j)))
               [0 ..< 32]"
proof -
  let ?mg = "slice original s (s + 32)"
  from assms have mg: "?mg = map (\<lambda>j. original ! (s + j)) [0 ..< 32]"
    by (simp add: slice_map_nth)
  then have len: "length ?mg = 32" by simp
  have sub: "slice ?mg a (a + 8) = map (\<lambda>j. original ! (s + (a + j))) [0 ..< 8]"
    if "a + 8 \<le> 32" for a
  proof -
    from that len have "slice ?mg a (a + 8) = map (\<lambda>j. ?mg ! (a + j)) [0 ..< 8]"
      by (simp add: slice_map_nth)
    also have "\<dots> = map (\<lambda>j. original ! (s + (a + j))) [0 ..< 8]"
      using that by (intro map_cong refl) (simp add: mg)
    finally show ?thesis .
  qed
  from sub [of 0] sub [of 8] sub [of 16] sub [of 24]
  have parts: "slice ?mg 0 8 = map (\<lambda>j. original ! (s + j)) [0 ..< 8]"
    "slice ?mg 8 16 = map (\<lambda>j. original ! (s + (8 + j))) [0 ..< 8]"
    "slice ?mg 16 24 = map (\<lambda>j. original ! (s + (16 + j))) [0 ..< 8]"
    "slice ?mg 24 32 = map (\<lambda>j. original ! (s + (24 + j))) [0 ..< 8]"
    by simp_all
  show ?thesis
    unfolding parts
    by (rule nth_equalityI) (auto simp: nth_append ac_simps)
qed

lemma nth_concat_blocks:
  "\<forall>b \<in> set bs. length b = m \<Longrightarrow> i < m * length bs \<Longrightarrow>
   concat bs ! i = bs ! (i div m) ! (i mod m)"
proof (induction bs arbitrary: i)
  case Nil
  then show ?case by simp
next
  case (Cons b bs)
  then have lb: "length b = m" by simp
  show ?case
  proof (cases "i < m")
    case True
    with lb show ?thesis by (simp add: nth_append)
  next
    case False
    then have ge: "m \<le> i" by simp
    from Cons.prems lb have m: "0 < m" by (cases m) auto
    from Cons.prems ge have "i - m < m * length bs" by (simp add: algebra_simps)
    with Cons have ih: "concat bs ! (i - m) = bs ! ((i - m) div m) ! ((i - m) mod m)"
      by simp
    from m ge have d: "i div m = Suc ((i - m) div m)" by (rule le_div_geq)
    from ge have md: "i mod m = (i - m) mod m" by (rule le_mod_geq)
    from False lb ih show ?thesis
      by (simp add: nth_append d md)
  qed
qed

lemma resolve_palette_256_nth:
  assumes "length original = 256" and "i < 256"
  shows "resolve_palette 256 original ! i =
           original ! (32 * (i div 32)
                       + (if 8 \<le> i mod 32 \<and> i mod 32 < 16 then i mod 32 + 8
                          else if 16 \<le> i mod 32 \<and> i mod 32 < 24 then i mod 32 - 8
                          else i mod 32))"
    and "length (resolve_palette 256 original) = 256"
proof -
  let ?sw = "\<lambda>j::nat. if 8 \<le> j \<and> j < 16 then j + 8 else if 16 \<le> j \<and> j < 24 then j - 8 else j"
  let ?g = "\<lambda>s. map (\<lambda>j. original ! (s + ?sw j)) [0 ..< 32]"
  let ?starts = "[0, 32, 64, 96, 128, 160, 192, 224 :: nat]"
  have starts: "?starts = map (\<lambda>k. 32 * k) [0 ..< 8]"
    by (simp add: upt_conv_Cons)
  have "\<forall>s \<in> set ?starts. s + 32 \<le> length original"
    using assms(1) by simp
  then have "map (\<lambda>s. slice (slice original s (s + 32)) 0 8
                                 @ slice (slice original s (s + 32)) 16 24
                                 @ slice (slice original s (s + 32)) 8 16
                                 @ slice (slice original s (s + 32)) 24 32) ?starts
             = map ?g ?starts"
    by (intro map_cong refl reordered_group) blast
  then have res: "resolve_palette 256 original = concat (map ?g ?starts)"
    by (simp only: resolve_palette_def reorder_loop_closed simp_thms if_True append_Nil)
  have blocks: "\<forall>b \<in> set (map ?g ?starts). length b = 32" by simp
  have lens: "length (map ?g ?starts) = 8" by simp
  from assms(2) have "i < 32 * length (map ?g ?starts)" by (simp only: lens)
  with blocks have "concat (map ?g ?starts) ! i = map ?g ?starts ! (i div 32) ! (i mod 32)"
    by (rule nth_concat_blocks)
  also from assms(2) have "i div 32 < 8" by simp
  then have "map ?g ?starts ! (i div 32) = ?g (32 * (i div 32))"
    unfolding starts by (simp del: upt_Suc)
  also have "?g (32 * (i div 32)) ! (i mod 32) = original ! (32 * (i div 32) + ?sw (i mod 32))"
    by (simp del: upt_Suc)
  finally show "resolve_palette 256 original ! i =
           original ! (32 * (i div 32)
                       + (if 8 \<le> i mod 32 \<and> i mod 32 < 16 then i mod 32 + 8
                          else if 16 \<le> i mod 32 \<and> i mod 32 < 24 then i mod 32 - 8
                          else i mod 32))"
    by (simp only: res)
  show "length (resolve_palette 256 original) = 256"
    by (simp only: res) (simp add: length_concat)
qed

lemma arr_pixels_closed:
  "arr_pixels bs = map (\<lambda>k. (bs ! (4 * k), bs ! (4 * k + 1), bs ! (4 * k + 2),
                              alpha_eva (bs ! (4 * k + 3)))) [0 ..< length bs div 4]"
proof (induction bs rule: arr_pixels.induct)
  case (1 r g b a rest)
  have "length (r # g # b # a # rest) div 4 = Suc (length rest div 4)"
    by simp
  then have "[0 ..< length (r # g # b # a # rest) div 4] = 0 # map Suc [0 ..< length rest div 4]"
    by (simp only: upt_conv_Cons [OF zero_less_Suc] map_Suc_upt)
  with 1 show ?case by (simp add: comp_def ac_simps del: upt_Suc)
qed simp_all

lemma extract_image_pixels:
  assumes "i < length hs" and "fst (extract_image data hs i) = Some im"
  shows "im_pixels im =
           map (\<lambda>k. (data ! (h_image_offset (snd (hs ! i)) + 4 * k),
                      data ! (h_image_offset (snd (hs ! i)) + 4 * k + 1),
                      data ! (h_image_offset (snd (hs ! i)) + 4 * k + 2),
                      alpha_eva (data ! (h_image_offset (snd (hs ! i)) + 4 * k + 3))))
               [0 ..< h_width (snd (hs ! i)) * h_height (snd (hs ! i))]"
proof -
  let ?h = "snd (hs ! i)"
  let ?off = "h_image_offset ?h"
  let ?n = "h_width ?h * h_height ?h"
  let ?buf = "slice data ?off (?off + ?n * 4)"
  from assms have fits: "?off + ?n * 4 \<le> length data"
    and px: "im_pixels im = arr_pixels ?buf"
    by (auto simp: extract_image_def Let_def split: if_splits)
  from fits have buf: "?buf = map (\<lambda>j. data ! (?off + j)) [0 ..< ?n * 4]"
    by (simp add: slice_map_nth)
  then have len: "length ?buf div 4 = ?n" by simp
  have "arr_pixels ?buf = map (\<lambda>k. (?buf ! (4 * k), ?buf ! (4 * k + 1), ?buf ! (4 * k + 2),
                                     alpha_eva (?buf ! (4 * k + 3)))) [0 ..< ?n]"
    using arr_pixels_closed [of ?buf] by (simp only: len)
  also have "\<dots> = map (\<lambda>k. (data ! (?off + 4 * k), data ! (?off + 4 * k + 1),
                             data ! (?off + 4 * k + 2), alpha_eva (data ! (?off + 4 * k + 3))))
                      [0 ..< ?n]"
  proof (rule map_cong [OF refl])
    fix k assume "k \<in> set [0 ..< ?n]"
    then have k: "4 * k + 3 < ?n * 4" by simp
    then have "?buf ! (4 * k) = data ! (?off + 4 * k)"
      "?buf ! (4 * k + 1) = data ! (?off + 4 * k + 1)"
      "?buf ! (4 * k + 2) = data ! (?off + 4 * k + 2)"
      "?buf ! (4 * k + 3) = data ! (?off + 4 * k + 3)"
      unfolding buf by (simp_all add: add.assoc del: upt_Suc)
    then show "(?buf ! (4 * k), ?buf ! (4 * k + 1), ?buf ! (4 * k + 2),
                alpha_eva (?buf ! (4 * k + 3)))
             = (data ! (?off + 4 * k), data ! (?off + 4 * k + 1),
                data ! (?off + 4 * k + 2), alpha_eva (data ! (?off + 4 * k + 3)))"
      by (simp only:)
  qed
  finally show ?thesis using px by simp
qed

text \<open>
  C4: for a palette of 256 entries the legacy decoder's palette has 256 entries, and entry
  \<open>i\<close> is the original entry of the same group of 32 (\<open>i div 32\<close>) whose position in the
  group is that of \<open>i\<close>, except that the second and the third sub-group of 8 change
  places (positions 8..15 read from 16..23 and the converse); inside a sub-group and
  between groups nothing moves. For any other entry count (16 entries, or none for
  direct colour) the palette is the original one. The chained decoder has no palette:
  pixel \<open>k\<close> of a decoded picture is made of the four bytes at \<open>image_offset + 4k\<close>, the
  fourth one alpha-adjusted.
\<close>

theorem palette_reorder:
  "(length original_palette = 256 \<longrightarrow>
      length (resolve_palette 256 original_palette) = 256
      \<and> (\<forall>i < 256. resolve_palette 256 original_palette ! i =
            original_palette ! (32 * (i div 32)
                                + (if 8 \<le> i mod 32 \<and> i mod 32 < 16 then i mod 32 + 8
                                   else if 16 \<le> i mod 32 \<and> i mod 32 < 24 then i mod 32 - 8
                                   else i mod 32))))
   \<and> (cont \<noteq> 256 \<longrightarrow> resolve_palette cont original_palette = original_palette)
   \<and> (n < length hs \<and> fst (extract_image data hs n) = Some im \<longrightarrow>
        im_pixels im =
           map (\<lambda>k. (data ! (h_image_offset (snd (hs ! n)) + 4 * k),
                      data ! (h_image_offset (snd (hs ! n)) + 4 * k + 1),
                      data ! (h_image_offset (snd (hs ! n)) + 4 * k + 2),
                      alpha_eva (data ! (h_image_offset (snd (hs ! n)) + 4 * k + 3))))
               [0 ..< h_width (snd (hs ! n)) * h_height (snd (hs ! n))])"
proof (intro conjI impI allI)
  assume "length original_palette = 256"
  then show "length (resolve_palette 256 original_palette) = 256"
    using resolve_palette_256_nth(2) [of original_palette 0] by simp
next
  fix i :: nat
  assume "length original_palette = 256" and "i < 256"
  then show "resolve_palette 256 original_palette ! i =
            original_palette ! (32 * (i div 32)
                                + (if 8 \<le> i mod 32 \<and> i mod 32 < 16 then i mod 32 + 8
                                   else if 16 \<le> i mod 32 \<and> i mod 32 < 24 then i mod 32 - 8
                                   else i mod 32))"
    by (rule resolve_palette_256_nth(1))
next
  assume "cont \<noteq> 256"
  then show "resolve_palette cont original_palette = original_palette"
    by (simp add: resolve_palette_def)
next
  assume "n < length hs \<and> fst (extract_image data hs n) = Some im"
  then show "im_pixels im =
           map (\<lambda>k. (data ! (h_image_offset (snd (hs ! n)) + 4 * k),
                      data ! (h_image_offset (snd (hs ! n)) + 4 * k + 1),
                      data ! (h_image_offset (snd (hs ! n)) + 4 * k + 2),
                      alpha_eva (data ! (h_image_offset (snd (hs ! n)) + 4 * k + 3))))
               [0 ..< h_width (snd (hs ! n)) * h_height (snd (hs ! n))]"
    using extract_image_pixels [of n hs data im] by blast
qed

text \<open>
  The theorem on the palette whose entry \<open>i\<close> is the number \<open>i\<close>, on a palette of 16
  entries and on the empty palette of a direct-colour picture.
\<close>

theorem palette_reorder_witness:
  "resolve_palette 256 [0 ..< 256] ! 7 = 7
   \<and> resolve_palette 256 [0 ..< 256] ! 8 = 16
   \<and> resolve_palette 256 [0 ..< 256] ! 16 = 8
   \<and> resolve_palette 256 [0 ..< 256] ! 24 = 24
   \<and> resolve_palette 256 [0 ..< 256] ! 47 = 55
   \<and> resolve_palette 256 [0 ..< 256] ! 255 = 255
   \<and> resolve_palette 16 [0 ..< 16] = [0 ..< 16]
   \<and> resolve_palette 0 ([] :: nat list) = []"
proof -
  have len: "length [0 ..< 256] = 256" by simp
  note t = palette_reorder [of "[0 ..< 256]" 16 0 "[]" "[]" undefined]
  from t len have all: "\<forall>i < 256. resolve_palette 256 [0 ..< 256] ! i =
            [0 ..< 256] ! (32 * (i div 32)
                                + (if 8 \<le> i mod 32 \<and> i mod 32 < 16 then i mod 32 + 8
                                   else if 16 \<le> i mod 32 \<and> i mod 32 < 24 then i mod 32 - 8
                                   else i mod 32))"
    by blast
  from all [rule_format, of 7] all [rule_format, of 8] all [rule_format, of 16]
    all [rule_format, of 24] all [rule_format, of 47] all [rule_format, of 255]
  have "resolve_palette 256 [0 ..< 256] ! 7 = 7
   \<and> resolve_palette 256 [0 ..< 256] ! 8 = 16
   \<and> resolve_palette 256 [0 ..< 256] ! 16 = 8
   \<and> resolve_palette 256 [0 ..< 256] ! 24 = 24
   \<and> resolve_palette 256 [0 ..< 256] ! 47 = 55
   \<and> resolve_palette 256 [0 ..< 256] ! 255 = 255"
    by simp
  moreover from palette_reorder [of "[0 ..< 16]" 16 0 "[]" "[]" undefined]
  have "resolve_palette 16 [0 ..< 16] = [0 ..< 16]" by simp
  moreover from palette_reorder [of "[] :: nat list" 0 0 "[]" "[]" undefined]
  have "resolve_palette 0 ([] :: nat list) = []" by simp
  ultimately show ?thesis by blast
qed

end
